theory Spec2Isabelle
  imports Complex_Main
begin

section \<open>Maze lattice\<close>

text \<open>
  The source is one JavaScript file, \<^verbatim>\<open>src/maze.js\<close>. JavaScript numbers are
  modelled as \<^typ>\<open>int\<close> where the code only uses them as indices and sizes. Where it
  computes with fractions they are \<^typ>\<open>real\<close>, and in the ray caster, whose divisions can
  leave the range of a double, a type \<open>jsnum\<close> with \<^verbatim>\<open>Infinity\<close>, \<^verbatim>\<open>-Infinity\<close> and
  \<^verbatim>\<open>NaN\<close> (see below). A read of a property of \<^verbatim>\<open>undefined\<close> throws a TypeError; it is
  the only exception the modelled code can raise.
\<close>

datatype error = TypeError

datatype dir = North | South | West | East

record cell =
  visited :: bool
  north :: bool
  south :: bool
  west :: bool
  east :: bool

type_synonym lattice = "cell list list"

text \<open>\<^verbatim>\<open>xs[i]\<close> on a JavaScript array: \<^verbatim>\<open>undefined\<close> (here \<open>None\<close>) out of range.\<close>

definition elemAt :: "'a list \<Rightarrow> int \<Rightarrow> 'a option" where
  "elemAt xs i = (if 0 \<le> i \<and> i < int (length xs) then Some (xs ! nat i) else None)"

text \<open>\<^verbatim>\<open>maze[y][x]\<close>; \<open>None\<close> when the row or the cell is \<^verbatim>\<open>undefined\<close>
  (every use in the source then reads or writes a property of it, which throws).\<close>

definition cellAt :: "lattice \<Rightarrow> int \<Rightarrow> int \<Rightarrow> cell option" where
  "cellAt m x y = (case elemAt m y of None \<Rightarrow> None | Some row \<Rightarrow> elemAt row x)"

text \<open>An in-place update of the existing cell \<^verbatim>\<open>maze[y][x]\<close>.\<close>

definition setCell :: "lattice \<Rightarrow> int \<Rightarrow> int \<Rightarrow> (cell \<Rightarrow> cell) \<Rightarrow> lattice" where
  "setCell m x y f = m[nat y := (m ! nat y)[nat x := f (m ! nat y ! nat x)]]"

fun wall :: "dir \<Rightarrow> cell \<Rightarrow> bool" where
  "wall North c = north c"
| "wall South c = south c"
| "wall West c = west c"
| "wall East c = east c"

fun clearWall :: "dir \<Rightarrow> cell \<Rightarrow> cell" where
  "clearWall North c = c\<lparr>north := False\<rparr>"
| "clearWall South c = c\<lparr>south := False\<rparr>"
| "clearWall West c = c\<lparr>west := False\<rparr>"
| "clearWall East c = c\<lparr>east := False\<rparr>"

fun opposite :: "dir \<Rightarrow> dir" where
  "opposite North = South"
| "opposite South = North"
| "opposite West = East"
| "opposite East = West"

text \<open>The neighbour \<open>(nx, ny)\<close> of \<open>(x, y)\<close> in direction \<open>dir\<close> (lines 54-59).\<close>

fun neighbour :: "dir \<Rightarrow> int \<times> int \<Rightarrow> int \<times> int" where
  "neighbour North (x, y) = (x, y - 1)"
| "neighbour South (x, y) = (x, y + 1)"
| "neighbour West (x, y) = (x - 1, y)"
| "neighbour East (x, y) = (x + 1, y)"

definition freshCell :: cell where
  "freshCell = \<lparr>visited = False, north = True, south = True, west = True, east = True\<rparr>"

text \<open>The two initialisation loops of \<^verbatim>\<open>generateMaze\<close> (lines 33-42): they run
  \<open>height\<close> and \<open>width\<close> times, and not at all for a bound that is zero or negative.\<close>

definition initMaze :: "int \<Rightarrow> int \<Rightarrow> lattice" where
  "initMaze width height = replicate (nat height) (replicate (nat width) freshCell)"

section \<open>Maze generation\<close>

text \<open>
  \<^verbatim>\<open>Math.random()\<close> is modelled by an arbitrary sequence \<open>rnd\<close> of reals and a counter of
  the draws made so far; its contract is \<open>0 \<le> rnd k < 1\<close>. \<^verbatim>\<open>shuffle\<close> (lines 43-49)
  runs \<open>i\<close> from \<open>length - 1\<close> down to \<open>1\<close> and swaps positions \<open>i\<close> and
  \<open>j = floor (random * (i + 1))\<close>.
\<close>

fun shuffleFrom :: "(nat \<Rightarrow> real) \<Rightarrow> nat \<Rightarrow> 'a list \<Rightarrow> nat \<Rightarrow> 'a list \<times> nat" where
  "shuffleFrom rnd 0 array k = (array, k)"
| "shuffleFrom rnd (Suc i) array k =
     (let j = nat \<lfloor>rnd k * real (Suc i + 1)\<rfloor>
      in shuffleFrom rnd i (array[Suc i := array ! j, j := array ! Suc i]) (Suc k))"

definition shuffle :: "(nat \<Rightarrow> real) \<Rightarrow> 'a list \<Rightarrow> nat \<Rightarrow> 'a list \<times> nat" where
  "shuffle rnd array k = shuffleFrom rnd (length array - 1) array k"

record gen =
  maze :: lattice
  draws :: nat

text \<open>
  \<^verbatim>\<open>carve\<close> (lines 50-69) is recursive with a \<^verbatim>\<open>for\<close> loop around the recursive call.
  Both are one function here, over a frame that says where the computation stands:
  \<open>Carve x y\<close> is a call \<^verbatim>\<open>carve(x, y)\<close>, \<open>ForDirs x y ds\<close> is the loop of that call with the
  directions \<open>ds\<close> still to try. The result \<open>None\<close> stands for a computation that does not
  return.
\<close>

datatype frame = Carve int int | ForDirs int int "dir list"

partial_function (option) carve ::
  "(nat \<Rightarrow> real) \<Rightarrow> int \<Rightarrow> int \<Rightarrow> frame \<Rightarrow> gen \<Rightarrow> (error + gen) option" where
  "carve rnd width height fr st =
     (case fr of
        Carve x y \<Rightarrow>
          (case cellAt (maze st) x y of
             None \<Rightarrow> Some (Inl TypeError)
           | Some c \<Rightarrow>
               (case shuffle rnd [North, South, West, East] (draws st) of
                  (dirs, k) \<Rightarrow>
                    carve rnd width height (ForDirs x y dirs)
                      (st\<lparr>maze := setCell (maze st) x y (\<lambda>c. c\<lparr>visited := True\<rparr>),
                          draws := k\<rparr>)))
      | ForDirs x y [] \<Rightarrow> Some (Inr st)
      | ForDirs x y (d # ds) \<Rightarrow>
          (case neighbour d (x, y) of
             (nx, ny) \<Rightarrow>
               if nx \<ge> 0 \<and> nx < width \<and> ny \<ge> 0 \<and> ny < height then
                 (case cellAt (maze st) nx ny of
                    None \<Rightarrow> Some (Inl TypeError)
                  | Some n \<Rightarrow>
                      if \<not> visited n then
                        Option.bind
                          (carve rnd width height (Carve nx ny)
                            (st\<lparr>maze := setCell (setCell (maze st) x y (clearWall d))
                                           nx ny (clearWall (opposite d))\<rparr>))
                          (\<lambda>r. case r of
                                  Inl e \<Rightarrow> Some (Inl e)
                                | Inr st' \<Rightarrow> carve rnd width height (ForDirs x y ds) st')
                      else carve rnd width height (ForDirs x y ds) st)
               else carve rnd width height (ForDirs x y ds) st))"

declare carve.simps [code]

text \<open>\<^verbatim>\<open>generateMaze(width, height)\<close> (lines 32-72).\<close>

definition generateMaze :: "(nat \<Rightarrow> real) \<Rightarrow> int \<Rightarrow> int \<Rightarrow> (error + lattice) option" where
  "generateMaze rnd width height =
     map_option (map_sum id maze)
       (carve rnd width height (Carve 0 0) \<lparr>maze = initMaze width height, draws = 0\<rparr>)"

section \<open>Tile grid\<close>

type_synonym grid = "int list list"

text \<open>An assignment \<^verbatim>\<open>grid[gy][gx] = v\<close> to an existing position.\<close>

definition put :: "grid \<Rightarrow> nat \<Rightarrow> nat \<Rightarrow> int \<Rightarrow> grid" where
  "put g gy gx v = g[gy := (g ! gy)[gx := v]]"

text \<open>A \<^verbatim>\<open>for\<close> loop over the indices \<open>is\<close> whose body may throw.\<close>

fun forEach :: "nat list \<Rightarrow> (nat \<Rightarrow> 's \<Rightarrow> error + 's) \<Rightarrow> 's \<Rightarrow> error + 's" where
  "forEach [] body s = Inr s"
| "forEach (i # is) body s =
     (case body i s of Inl e \<Rightarrow> Inl e | Inr s' \<Rightarrow> forEach is body s')"

text \<open>The body of the inner loop of \<^verbatim>\<open>mazeToGrid\<close> (lines 85-92).\<close>

definition gridCell :: "lattice \<Rightarrow> nat \<Rightarrow> nat \<Rightarrow> grid \<Rightarrow> error + grid" where
  "gridCell m y x g =
     (case cellAt m (int x) (int y) of
        None \<Rightarrow> Inl TypeError
      | Some c \<Rightarrow>
          (let gy = y * 2 + 1;
               gx = x * 2 + 1;
               g1 = put g gy gx 0;
               g2 = (if \<not> north c then put g1 (gy - 1) gx 0 else g1);
               g3 = (if \<not> south c then put g2 (gy + 1) gx 0 else g2);
               g4 = (if \<not> west c then put g3 gy (gx - 1) 0 else g3);
               g5 = (if \<not> east c then put g4 gy (gx + 1) 0 else g4)
           in Inr g5))"

text \<open>\<^verbatim>\<open>mazeToGrid(maze)\<close> (lines 77-96); \<^verbatim>\<open>maze[0].length\<close> throws on an empty
  array.\<close>

definition mazeToGrid :: "lattice \<Rightarrow> error + grid" where
  "mazeToGrid m =
     (case m of
        [] \<Rightarrow> Inl TypeError
      | row0 # _ \<Rightarrow>
          (let h = length m;
               w = length row0;
               gridH = h * 2 + 1;
               gridW = w * 2 + 1
           in forEach [0..<h] (\<lambda>y. forEach [0..<w] (\<lambda>x. gridCell m y x))
                (replicate gridH (replicate gridW 1))))"

section \<open>Game state\<close>

text \<open>The module-level variables the ray caster and the movement code read
  (lines 107-114), as \<^verbatim>\<open>initGame\<close> sets them (lines 116-135).\<close>

record game =
  grid :: grid
  exitX :: int
  exitY :: int

definition startGridX :: int where "startGridX = 1"
definition startGridY :: int where "startGridY = 1"

definition initGame :: "(nat \<Rightarrow> real) \<Rightarrow> int \<Rightarrow> (error + game) option" where
  "initGame rnd stage =
     (let baseSize = 8;
          mazeWidth = baseSize + (stage - 1) * 2;
          mazeHeight = baseSize + (stage - 1) * 2
      in case generateMaze rnd mazeWidth mazeHeight of
           None \<Rightarrow> None
         | Some (Inl e) \<Rightarrow> Some (Inl e)
         | Some (Inr m) \<Rightarrow>
             (case mazeToGrid m of
                Inl e \<Rightarrow> Some (Inl e)
              | Inr g \<Rightarrow>
                  Some (Inr \<lparr>grid = g, exitX = mazeWidth * 2 - 1, exitY = mazeHeight * 2 - 1\<rparr>)))"

text \<open>The bounds test of lines 354 and 514, with JavaScript's left-to-right evaluation:
  \<^verbatim>\<open>grid[0].length\<close> is read, and throws on an empty grid, only when \<open>mapX < 0\<close> is false.\<close>

definition outsideMap :: "grid \<Rightarrow> int \<Rightarrow> int \<Rightarrow> error + bool" where
  "outsideMap g mapX mapY =
     (if mapX < 0 then Inr True
      else case g of
             [] \<Rightarrow> Inl TypeError
           | row0 # _ \<Rightarrow>
               Inr (mapX \<ge> int (length row0) \<or> mapY < 0 \<or> mapY \<ge> int (length g)))"

text \<open>\<^verbatim>\<open>grid[mapY][mapX]\<close> for an existing row \<open>mapY\<close>.\<close>

definition gridAt :: "grid \<Rightarrow> int \<Rightarrow> int \<Rightarrow> int option" where
  "gridAt g mapX mapY = (case elemAt g mapY of None \<Rightarrow> None | Some row \<Rightarrow> elemAt row mapX)"

section \<open>Ray casting\<close>

text \<open>
  A JavaScript number where the code can produce a non-finite one. A finite result is kept
  exact: the rounding of binary64 is not modelled. Its range is: a result whose magnitude
  reaches \<open>2 ^ 1024 - 2 ^ 970\<close>, the least real that rounds beyond the largest double,
  is \<^verbatim>\<open>Infinity\<close> or \<^verbatim>\<open>-Infinity\<close>, and the non-finite numbers add, multiply and
  compare as IEEE 754 has it (\<open>0 * Infinity\<close> is \<^verbatim>\<open>NaN\<close>, every comparison with
  \<^verbatim>\<open>NaN\<close> is false).
\<close>

datatype jsnum = Finite real | PosInf | NegInf | NaN

definition overflowAt :: real where
  "overflowAt = 2 ^ 1024 - 2 ^ 970"

definition fl :: "real \<Rightarrow> jsnum" where
  "fl x = (if overflowAt \<le> x then PosInf else if x \<le> - overflowAt then NegInf else Finite x)"

definition infTimes :: "real \<Rightarrow> jsnum" where
  "infTimes a = (if a > 0 then PosInf else if a < 0 then NegInf else NaN)"

fun jsAdd :: "jsnum \<Rightarrow> jsnum \<Rightarrow> jsnum" where
  "jsAdd (Finite a) (Finite b) = fl (a + b)"
| "jsAdd NaN _ = NaN"
| "jsAdd _ NaN = NaN"
| "jsAdd PosInf NegInf = NaN"
| "jsAdd NegInf PosInf = NaN"
| "jsAdd PosInf _ = PosInf"
| "jsAdd _ PosInf = PosInf"
| "jsAdd NegInf _ = NegInf"
| "jsAdd _ NegInf = NegInf"

fun jsMul :: "jsnum \<Rightarrow> jsnum \<Rightarrow> jsnum" where
  "jsMul (Finite a) (Finite b) = fl (a * b)"
| "jsMul NaN _ = NaN"
| "jsMul _ NaN = NaN"
| "jsMul (Finite a) PosInf = infTimes a"
| "jsMul PosInf (Finite a) = infTimes a"
| "jsMul (Finite a) NegInf = infTimes (- a)"
| "jsMul NegInf (Finite a) = infTimes (- a)"
| "jsMul PosInf PosInf = PosInf"
| "jsMul NegInf NegInf = PosInf"
| "jsMul PosInf NegInf = NegInf"
| "jsMul NegInf PosInf = NegInf"

fun jsLess :: "jsnum \<Rightarrow> jsnum \<Rightarrow> bool" where
  "jsLess (Finite a) (Finite b) = (a < b)"
| "jsLess NaN _ = False"
| "jsLess _ NaN = False"
| "jsLess NegInf NegInf = False"
| "jsLess NegInf _ = True"
| "jsLess _ NegInf = False"
| "jsLess PosInf _ = False"
| "jsLess _ PosInf = True"

record ray =
  distR :: jsnum
  side :: nat
  startSeen :: bool
  exitSeen :: bool

text \<open>How the \<^verbatim>\<open>while (!hit)\<close> loop of \<^verbatim>\<open>castRay\<close> (lines 343-365) ends: by the
  \<^verbatim>\<open>return\<close> of line 355, or with \<open>hit\<close> set, at a cell and with the values of
  \<open>side\<close>, \<open>startSeen\<close> and \<open>exitSeenFlag\<close> of that moment.\<close>

datatype loopEnd = Return ray | Hit int int nat bool bool

text \<open>The loop. Its last argument and second result is the list of the cells the walk has
  stepped into, in order; the source does not keep it, and nothing in the loop reads it.
  The result \<open>None\<close> stands for a loop that runs forever.\<close>

partial_function (option) ddaLoop ::
  "game \<Rightarrow> jsnum \<Rightarrow> jsnum \<Rightarrow> int \<Rightarrow> int \<Rightarrow> jsnum \<Rightarrow> jsnum \<Rightarrow> int \<Rightarrow> int \<Rightarrow> bool \<Rightarrow> bool \<Rightarrow>
   (int \<times> int) list \<Rightarrow> (error + loopEnd \<times> (int \<times> int) list) option" where
  "ddaLoop g deltaDistX deltaDistY stepX stepY sideDistX sideDistY mapX mapY
       startSeenV exitSeenFlag path =
     (let stepsX = jsLess sideDistX sideDistY;
          sideDistX' = (if stepsX then jsAdd sideDistX deltaDistX else sideDistX);
          sideDistY' = (if stepsX then sideDistY else jsAdd sideDistY deltaDistY);
          mapX' = (if stepsX then mapX + stepX else mapX);
          mapY' = (if stepsX then mapY else mapY + stepY);
          side' = (if stepsX then 0 else 1);
          path' = path @ [(mapX', mapY')]
      in case outsideMap (grid g) mapX' mapY' of
           Inl e \<Rightarrow> Some (Inl e)
         | Inr outside \<Rightarrow>
             if outside then
               Some (Inr (Return \<lparr>distR = PosInf, side = 0, startSeen = False, exitSeen = False\<rparr>,
                          path'))
             else
               (let v = gridAt (grid g) mapX' mapY';
                    startSeen' = (startSeenV \<or> v = Some 0 \<and> mapX' = startGridX \<and> mapY' = startGridY);
                    exitSeen' = (exitSeenFlag \<or> v = Some 0 \<and> mapX' = exitX g \<and> mapY' = exitY g)
                in if v = Some 1 then Some (Inr (Hit mapX' mapY' side' startSeen' exitSeen', path'))
                   else ddaLoop g deltaDistX deltaDistY stepX stepY sideDistX' sideDistY'
                          mapX' mapY' startSeen' exitSeen' path'))"

declare ddaLoop.simps [code]

text \<open>\<^verbatim>\<open>castRay(posX, posY, rayAngle)\<close> (lines 310-374), with the cells stepped into.\<close>

definition castRayTrace ::
  "game \<Rightarrow> real \<Rightarrow> real \<Rightarrow> real \<Rightarrow> (error + ray \<times> (int \<times> int) list) option" where
  "castRayTrace g posX posY rayAngle =
     (let rayDirX = cos rayAngle;
          rayDirY = sin rayAngle;
          mapX = \<lfloor>posX\<rfloor>;
          mapY = \<lfloor>posY\<rfloor>;
          deltaDistX = (if rayDirX = 0 then Finite (10 ^ 30) else fl \<bar>1 / rayDirX\<bar>);
          deltaDistY = (if rayDirY = 0 then Finite (10 ^ 30) else fl \<bar>1 / rayDirY\<bar>);
          stepX = (if rayDirX < 0 then - 1 else 1);
          sideDistX = (if rayDirX < 0 then jsMul (Finite (posX - of_int mapX)) deltaDistX
                       else jsMul (Finite (of_int mapX + 1 - posX)) deltaDistX);
          stepY = (if rayDirY < 0 then - 1 else 1);
          sideDistY = (if rayDirY < 0 then jsMul (Finite (posY - of_int mapY)) deltaDistY
                       else jsMul (Finite (of_int mapY + 1 - posY)) deltaDistY);
          startSeen0 = (\<lfloor>posX\<rfloor> = startGridX \<and> \<lfloor>posY\<rfloor> = startGridY);
          exitSeen0 = (\<lfloor>posX\<rfloor> = exitX g \<and> \<lfloor>posY\<rfloor> = exitY g)
      in case ddaLoop g deltaDistX deltaDistY stepX stepY sideDistX sideDistY mapX mapY
                startSeen0 exitSeen0 [] of
           None \<Rightarrow> None
         | Some (Inl e) \<Rightarrow> Some (Inl e)
         | Some (Inr (Return r, path)) \<Rightarrow> Some (Inr (r, path))
         | Some (Inr (Hit mx my sd ss es, path)) \<Rightarrow>
             (let perpWallDist =
                    (if sd = 0
                     then (of_int mx - posX + (1 - of_int stepX) / 2)
                          / (if rayDirX = 0 then 1 / 10 ^ 6 else rayDirX)
                     else (of_int my - posY + (1 - of_int stepY) / 2)
                          / (if rayDirY = 0 then 1 / 10 ^ 6 else rayDirY))
              in Some (Inr (\<lparr>distR = fl perpWallDist, side = sd, startSeen = ss,
                              exitSeen = es\<rparr>, path))))"

definition castRay :: "game \<Rightarrow> real \<Rightarrow> real \<Rightarrow> real \<Rightarrow> (error + ray) option" where
  "castRay g posX posY rayAngle = map_option (map_sum id fst) (castRayTrace g posX posY rayAngle)"

section \<open>Projection\<close>

record player =
  playerX :: real
  playerY :: real
  angle :: real
  moveSpeed :: real
  rotSpeed :: real

text \<open>The product \<^verbatim>\<open>distance * Math.cos(...)\<close> of line 397, where \<open>distance\<close> may be
  \<^verbatim>\<open>Infinity\<close>.\<close>

fun timesReal :: "jsnum \<Rightarrow> real \<Rightarrow> jsnum" where
  "timesReal (Finite d) c = Finite (d * c)"
| "timesReal PosInf c = (if c > 0 then PosInf else if c < 0 then NegInf else NaN)"
| "timesReal NegInf c = (if c > 0 then NegInf else if c < 0 then PosInf else NaN)"
| "timesReal NaN c = NaN"

record column =
  rayAngleC :: real
  result :: ray
  correctedDist :: jsnum

definition fov :: real where "fov = pi / 3"

text \<open>Lines 393-397 of \<^verbatim>\<open>render\<close>, for the screen column \<open>x\<close> of a canvas \<open>w\<close> wide.\<close>

definition renderColumn :: "game \<Rightarrow> player \<Rightarrow> nat \<Rightarrow> nat \<Rightarrow> (error + column) option" where
  "renderColumn g pl w x =
     (let rayAngle = angle pl - fov / 2 + (real x / real w) * fov
      in case castRay g (playerX pl) (playerY pl) rayAngle of
           None \<Rightarrow> None
         | Some (Inl e) \<Rightarrow> Some (Inl e)
         | Some (Inr res) \<Rightarrow>
             Some (Inr \<lparr>rayAngleC = rayAngle, result = res,
                        correctedDist = timesReal (distR res) (cos (rayAngle - angle pl))\<rparr>))"

text \<open>The columns of one frame, left to right: the loop of line 391.\<close>

definition renderColumns :: "game \<Rightarrow> player \<Rightarrow> nat \<Rightarrow> (error + column) option list" where
  "renderColumns g pl w = map (renderColumn g pl w) [0..<w]"

section \<open>Movement\<close>

record keys =
  forward :: bool
  backward :: bool
  strafeLeft :: bool
  strafeRight :: bool
  turnLeft :: bool
  turnRight :: bool

datatype viewMode = FirstPerson | MapView

text \<open>\<^verbatim>\<open>isWall(x, y)\<close> (lines 511-516).\<close>

definition isWall :: "grid \<Rightarrow> real \<Rightarrow> real \<Rightarrow> error + bool" where
  "isWall g x y =
     (let gx = \<lfloor>x\<rfloor>; gy = \<lfloor>y\<rfloor>
      in case outsideMap g gx gy of
           Inl e \<Rightarrow> Inl e
         | Inr outside \<Rightarrow> if outside then Inr True else Inr (gridAt g gx gy = Some 1))"

text \<open>\<^verbatim>\<open>update(delta)\<close> (lines 488-525): the new player. The exit test that follows
  (lines 527-537) changes no position and is left out.\<close>

definition update :: "game \<Rightarrow> viewMode \<Rightarrow> keys \<Rightarrow> real \<Rightarrow> player \<Rightarrow> error + player" where
  "update g vm ks delta pl =
     (if vm = MapView then Inr pl
      else
        let a1 = (if turnLeft ks then angle pl - rotSpeed pl * delta else angle pl);
            a2 = (if turnRight ks then a1 + rotSpeed pl * delta else a1);
            a3 = (if a2 < 0 then a2 + pi * 2 else a2);
            a4 = (if a3 \<ge> pi * 2 then a3 - pi * 2 else a3);
            m1 = (if forward ks then 0 + moveSpeed pl * delta else 0);
            moveStep = (if backward ks then m1 - moveSpeed pl * delta else m1);
            s1 = (if strafeLeft ks then 0 - moveSpeed pl * delta else 0);
            strafeStep = (if strafeRight ks then s1 + moveSpeed pl * delta else s1);
            newX = playerX pl + cos a4 * moveStep + cos (a4 + pi / 2) * strafeStep;
            newY = playerY pl + sin a4 * moveStep + sin (a4 + pi / 2) * strafeStep;
            radius = 2 / 10
        in case isWall (grid g) (newX + cos a4 * radius) (playerY pl) of
             Inl e \<Rightarrow> Inl e
           | Inr blockedX \<Rightarrow>
               (let x1 = (if \<not> blockedX then newX else playerX pl)
                in case isWall (grid g) x1 (newY + sin a4 * radius) of
                     Inl e \<Rightarrow> Inl e
                   | Inr blockedY \<Rightarrow>
                       (let y1 = (if \<not> blockedY then newY else playerY pl)
                        in Inr (pl\<lparr>playerX := x1, playerY := y1, angle := a4\<rparr>))))"

section \<open>Specification vocabulary\<close>

text \<open>The cell coordinates of a lattice \<open>w\<close> wide and \<open>h\<close> high.\<close>

definition inGrid :: "int \<Rightarrow> int \<Rightarrow> int \<times> int \<Rightarrow> bool" where
  "inGrid w h a = (0 \<le> fst a \<and> fst a < w \<and> 0 \<le> snd a \<and> snd a < h)"

text \<open>An array of \<open>h\<close> rows of \<open>w\<close> entries each.\<close>

definition rect :: "int \<Rightarrow> int \<Rightarrow> 'a list list \<Rightarrow> bool" where
  "rect w h m = (length m = nat h \<and> list_all (\<lambda>row. length row = nat w) m)"

text \<open>\<^verbatim>\<open>maze[y][x]\<close> for a coordinate pair \<open>(x, y)\<close>.\<close>

definition cellOf :: "lattice \<Rightarrow> int \<times> int \<Rightarrow> cell option" where
  "cellOf m a = cellAt m (fst a) (snd a)"

text \<open>A path from \<open>a\<close> to \<open>b\<close> that visits no vertex twice and whose consecutive vertices
  are related by \<open>R\<close>.\<close>

definition simplePath :: "('a \<Rightarrow> 'a \<Rightarrow> bool) \<Rightarrow> 'a \<Rightarrow> 'a \<Rightarrow> 'a list \<Rightarrow> bool" where
  "simplePath R a b p = (p \<noteq> [] \<and> hd p = a \<and> last p = b \<and> distinct p \<and> successively R p)"

text \<open>A graph, as a vertex set and an edge relation, that is obtained from a single vertex by
  hanging one new vertex at a time on an old one, with an edge in both directions: a tree.\<close>

inductive grown :: "'a set \<Rightarrow> ('a \<Rightarrow> 'a \<Rightarrow> bool) \<Rightarrow> bool" where
  root: "(\<And>u v. \<not> R u v) \<Longrightarrow> grown {r} R"
| leaf: "grown V R \<Longrightarrow> c \<in> V \<Longrightarrow> n \<notin> V \<Longrightarrow>
         (\<And>u v. R' u v = (R u v \<or> (u = c \<and> v = n) \<or> (u = n \<and> v = c))) \<Longrightarrow>
         grown (insert n V) R'"

text \<open>An opened boundary: \<open>b\<close> is the neighbour of the cell \<open>a\<close> in a direction whose wall flag
  of \<open>a\<close> is absent, and both are cells of the lattice.\<close>

definition passage :: "lattice \<Rightarrow> int \<times> int \<Rightarrow> int \<times> int \<Rightarrow> bool" where
  "passage m a b =
     (case cellOf m a of
        None \<Rightarrow> False
      | Some c \<Rightarrow> cellOf m b \<noteq> None \<and>
                  list_ex (\<lambda>d. \<not> wall d c \<and> neighbour d a = b) [North, South, West, East])"

text \<open>The cells whose \<open>visited\<close> flag is set.\<close>

definition visitedSet :: "lattice \<Rightarrow> (int \<times> int) set" where
  "visitedSet m = {a. \<exists>c. cellOf m a = Some c \<and> visited c}"

text \<open>The number of cells of the lattice that satisfy \<open>P\<close>.\<close>

definition countCells :: "(cell \<Rightarrow> bool) \<Rightarrow> lattice \<Rightarrow> nat" where
  "countCells P m = sum_list (map (\<lambda>row. length (filter P row)) m)"

text \<open>The number of opened boundaries: a boundary between horizontal neighbours is counted at
  the east flag of its western cell, one between vertical neighbours at the south flag of
  its upper cell.\<close>

definition openedBoundaries :: "lattice \<Rightarrow> nat" where
  "openedBoundaries m = countCells (\<lambda>c. \<not> east c) m + countCells (\<lambda>c. \<not> south c) m"

text \<open>The two flags of a shared boundary agree.\<close>

definition wallsConsistent :: "lattice \<Rightarrow> bool" where
  "wallsConsistent m =
     (\<forall>a d c c'. cellOf m a = Some c \<longrightarrow> cellOf m (neighbour d a) = Some c' \<longrightarrow>
        wall d c = wall (opposite d) c')"

text \<open>Every wall on the rim of the lattice is present.\<close>

definition outerWalls :: "lattice \<Rightarrow> bool" where
  "outerWalls m =
     (\<forall>a d c. cellOf m a = Some c \<longrightarrow> cellOf m (neighbour d a) = None \<longrightarrow> wall d c)"

text \<open>A cell not visited yet has its four walls.\<close>

definition unvisitedClosed :: "lattice \<Rightarrow> bool" where
  "unvisitedClosed m = (\<forall>a d c. cellOf m a = Some c \<longrightarrow> \<not> visited c \<longrightarrow> wall d c)"

text \<open>The invariant of the carving, at every point where no boundary is half processed: the
  visited cells with the opened boundaries form a tree, and there is one opened boundary
  less than there are visited cells (counted from either side).\<close>

definition Inv :: "int \<Rightarrow> int \<Rightarrow> lattice \<Rightarrow> bool" where
  "Inv w h m =
     (rect w h m \<and> wallsConsistent m \<and> outerWalls m \<and> unvisitedClosed m \<and>
      grown (visitedSet m) (passage m) \<and>
      countCells (\<lambda>c. \<not> east c) m + countCells (\<lambda>c. \<not> south c) m + 1 = countCells visited m \<and>
      countCells (\<lambda>c. \<not> west c) m + countCells (\<lambda>c. \<not> north c) m + 1 = countCells visited m)"

text \<open>The contract of \<^verbatim>\<open>Math.random\<close>: every draw lies in \<open>[0, 1)\<close>.\<close>

definition randomOK :: "(nat \<Rightarrow> real) \<Rightarrow> bool" where
  "randomOK rnd = (\<forall>k. 0 \<le> rnd k \<and> rnd k < 1)"

text \<open>The number of cells not visited yet: what decreases along the recursion.\<close>

definition unv :: "int \<Rightarrow> int \<Rightarrow> lattice \<Rightarrow> nat" where
  "unv w h m = card ({a. inGrid w h a} - visitedSet m)"

text \<open>What a call or a loop leaves behind, given the cells \<open>V\<close> visited before it: the invariant,
  no cell unvisited again, and every cell visited meanwhile has all its neighbours visited.\<close>

definition Post :: "int \<Rightarrow> int \<Rightarrow> (int \<times> int) set \<Rightarrow> lattice \<Rightarrow> bool" where
  "Post w h V m' =
     (Inv w h m' \<and> V \<subseteq> visitedSet m' \<and>
      (\<forall>a \<in> visitedSet m' - V. \<forall>d. inGrid w h (neighbour d a) \<longrightarrow> neighbour d a \<in> visitedSet m'))"

text \<open>A call \<^verbatim>\<open>carve(x, y)\<close> on an unvisited cell with fewer than \<open>k\<close> cells left returns, and
  leaves \<open>Post\<close> and the neighbours of \<open>(x, y)\<close> visited.\<close>

definition carveOK :: "(nat \<Rightarrow> real) \<Rightarrow> int \<Rightarrow> int \<Rightarrow> nat \<Rightarrow> bool" where
  "carveOK rnd w h k =
     (\<forall>st x y c.
        rect w h (maze st) \<and> cellOf (maze st) (x, y) = Some c \<and> \<not> visited c \<and>
        Inv w h (setCell (maze st) x y (\<lambda>c. c\<lparr>visited := True\<rparr>)) \<and>
        unv w h (setCell (maze st) x y (\<lambda>c. c\<lparr>visited := True\<rparr>)) < k \<longrightarrow>
        (\<exists>st'. carve rnd w h (Carve x y) st = Some (Inr st') \<and>
               Post w h (insert (x, y) (visitedSet (maze st))) (maze st') \<and>
               (\<forall>d. inGrid w h (neighbour d (x, y)) \<longrightarrow>
                    neighbour d (x, y) \<in> visitedSet (maze st'))))"

text \<open>The same for the loop of a call, over any list of directions still to try.\<close>

definition dirsOK :: "(nat \<Rightarrow> real) \<Rightarrow> int \<Rightarrow> int \<Rightarrow> nat \<Rightarrow> bool" where
  "dirsOK rnd w h k =
     (\<forall>st x y ds.
        Inv w h (maze st) \<and> (x, y) \<in> visitedSet (maze st) \<and> unv w h (maze st) < k \<longrightarrow>
        (\<exists>st'. carve rnd w h (ForDirs x y ds) st = Some (Inr st') \<and>
               Post w h (visitedSet (maze st)) (maze st') \<and>
               (\<forall>d \<in> set ds. inGrid w h (neighbour d (x, y)) \<longrightarrow>
                    neighbour d (x, y) \<in> visitedSet (maze st'))))"

text \<open>The invariant of the two loops of \<^verbatim>\<open>mazeToGrid\<close>, before the cell \<open>(xk, yk)\<close> is
  processed: the grid has its size, its rim is wall (where \<open>bw\<close> says that the lattice has
  its outer walls), and the tile of every cell processed so far is open.\<close>

definition gridInv :: "bool \<Rightarrow> int \<Rightarrow> int \<Rightarrow> nat \<Rightarrow> nat \<Rightarrow> grid \<Rightarrow> bool" where
  "gridInv bw w h yk xk g =
     (rect (2 * w + 1) (2 * h + 1) g \<and>
      (bw \<longrightarrow>
         (\<forall>i j. i < nat (2 * h + 1) \<longrightarrow> j < nat (2 * w + 1) \<longrightarrow>
             (i = 0 \<or> i = nat (2 * h) \<or> j = 0 \<or> j = nat (2 * w)) \<longrightarrow> g ! i ! j = 1)) \<and>
      (\<forall>y x. int x < w \<longrightarrow> (y < yk \<or> (y = yk \<and> x < xk)) \<longrightarrow> g ! (2 * y + 1) ! (2 * x + 1) = 0))"

text \<open>\<^verbatim>\<open>grid[0].length\<close> and \<^verbatim>\<open>grid.length\<close>, and the test of line 354 negated.\<close>

definition gridWidth :: "grid \<Rightarrow> int" where
  "gridWidth g = (case g of [] \<Rightarrow> 0 | row0 # _ \<Rightarrow> int (length row0))"

definition gridHeight :: "grid \<Rightarrow> int" where
  "gridHeight g = int (length g)"

definition inMap :: "grid \<Rightarrow> int \<times> int \<Rightarrow> bool" where
  "inMap g c = (0 \<le> fst c \<and> fst c < gridWidth g \<and> 0 \<le> snd c \<and> snd c < gridHeight g)"

text \<open>The record returned at line 355.\<close>

definition noHit :: ray where
  "noHit = \<lparr>distR = PosInf, side = 0, startSeen = False, exitSeen = False\<rparr>"

text \<open>The walk \<open>p\<close> has stepped into the cell \<open>c\<close>, and \<open>c\<close> is open.\<close>

definition openAt :: "game \<Rightarrow> int \<times> int \<Rightarrow> (int \<times> int) list \<Rightarrow> bool" where
  "openAt g c p = (c \<in> set p \<and> gridAt (grid g) (fst c) (snd c) = Some 0)"

text \<open>The cell \<open>b\<close> is one step of the walk from the cell \<open>a\<close>.\<close>

definition nextTo :: "int \<Rightarrow> int \<Rightarrow> int \<times> int \<Rightarrow> int \<times> int \<Rightarrow> bool" where
  "nextTo stepX stepY a b = (b = (fst a + stepX, snd a) \<or> b = (fst a, snd a + stepY))"

text \<open>What the loop, started at the cell \<open>(mapX, mapY)\<close> with the flags \<open>ss\<close> and \<open>es\<close>, ends
  with after stepping into the cells \<open>p\<close>.\<close>

definition walked ::
  "game \<Rightarrow> int \<Rightarrow> int \<Rightarrow> int \<Rightarrow> int \<Rightarrow> bool \<Rightarrow> bool \<Rightarrow> loopEnd \<Rightarrow> (int \<times> int) list \<Rightarrow> bool" where
  "walked g stepX stepY mapX mapY ss es e p =
     (p \<noteq> [] \<and>
      successively (nextTo stepX stepY) ((mapX, mapY) # p) \<and>
      list_all (\<lambda>c. inMap (grid g) c \<and> gridAt (grid g) (fst c) (snd c) \<noteq> Some 1) (butlast p) \<and>
      (case e of
         Return r \<Rightarrow> r = noHit \<and> \<not> inMap (grid g) (last p)
       | Hit mx my sd ss' es' \<Rightarrow>
           (mx, my) = last p \<and> inMap (grid g) (last p) \<and> gridAt (grid g) mx my = Some 1 \<and>
           (sd = 0 \<or> sd = 1) \<and>
           (if sd = 0 then 1 else 0) \<le> stepX * (mx - mapX) \<and>
           (if sd = 0 then 0 else 1) \<le> stepY * (my - mapY) \<and>
           ss' = (ss \<or> openAt g (startGridX, startGridY) p) \<and>
           es' = (es \<or> openAt g (exitX g, exitY g) p)))"

text \<open>A bound on the steps the loop can still make from \<open>(mapX, mapY)\<close>.\<close>

definition stepsLeft :: "grid \<Rightarrow> int \<Rightarrow> int \<Rightarrow> int \<Rightarrow> int \<Rightarrow> int" where
  "stepsLeft g stepX stepY mapX mapY =
     (if inMap g (mapX, mapY)
      then (if stepX = 1 then gridWidth g - mapX else mapX + 1) +
           (if stepY = 1 then gridHeight g - mapY else mapY + 1) - 1
      else gridWidth g + gridHeight g)"

definition stepOf :: "real \<Rightarrow> int" where
  "stepOf dir = (if dir < 0 then - 1 else 1)"

text \<open>What a cast from any origin, at any angle, over a nonempty grid returns.\<close>

definition castSpec :: "game \<Rightarrow> real \<Rightarrow> real \<Rightarrow> real \<Rightarrow> ray \<Rightarrow> (int \<times> int) list \<Rightarrow> bool" where
  "castSpec g posX posY rayAngle r path =
     (path \<noteq> [] \<and>
      successively (nextTo (stepOf (cos rayAngle)) (stepOf (sin rayAngle)))
        ((\<lfloor>posX\<rfloor>, \<lfloor>posY\<rfloor>) # path) \<and>
      list_all (\<lambda>c. inMap (grid g) c \<and> gridAt (grid g) (fst c) (snd c) \<noteq> Some 1) (butlast path) \<and>
      int (length path)
        \<le> stepsLeft (grid g) (stepOf (cos rayAngle)) (stepOf (sin rayAngle)) \<lfloor>posX\<rfloor> \<lfloor>posY\<rfloor> \<and>
      (if inMap (grid g) (last path)
       then gridAt (grid g) (fst (last path)) (snd (last path)) = Some 1 \<and>
            (distR r = PosInf \<or> (\<exists>d. distR r = Finite d \<and> 0 \<le> d)) \<and>
            (side r = 0 \<or> side r = 1) \<and>
            startSeen r = ((\<lfloor>posX\<rfloor> = startGridX \<and> \<lfloor>posY\<rfloor> = startGridY) \<or>
                           openAt g (startGridX, startGridY) path) \<and>
            exitSeen r = ((\<lfloor>posX\<rfloor> = exitX g \<and> \<lfloor>posY\<rfloor> = exitY g) \<or>
                          openAt g (exitX g, exitY g) path)
       else r = noHit))"

section \<open>Proofs\<close>

lemma cellAt_setCell:
  assumes "0 \<le> x" "0 \<le> y"
  shows "cellAt (setCell m x y f) x' y' =
         (if x' = x \<and> y' = y then map_option f (cellAt m x y) else cellAt m x' y')"
proof -
  have eq: "\<And>a b::int. 0 \<le> a \<Longrightarrow> 0 \<le> b \<Longrightarrow> nat a = nat b \<longleftrightarrow> a = b" by auto
  show ?thesis
    using assms
    by (auto simp: cellAt_def setCell_def elemAt_def nth_list_update eq split: option.splits)
qed

lemma rect_setCell:
  assumes r: "rect w h m"
  shows "rect w h (setCell m x y f)"
proof (cases "nat y < length m")
  case True
  then have "length (m ! nat y) = nat w"
    using r by (simp add: rect_def list_all_length)
  with r True show ?thesis
    by (auto simp: rect_def setCell_def list_all_length nth_list_update)
next
  case False
  with r show ?thesis by (simp add: setCell_def list_update_beyond)
qed

lemma cellAt_rect: "rect w h m \<Longrightarrow> (cellAt m x y \<noteq> None) = inGrid w h (x, y)"
  by (auto simp: rect_def cellAt_def elemAt_def inGrid_def list_all_iff split: option.splits)

lemma cellOf_setCell:
  "inGrid w h (x, y) \<Longrightarrow> cellOf (setCell m x y f) = (\<lambda>a. if a = (x, y) then map_option f (cellOf m a) else cellOf m a)"
  by (auto simp: cellOf_def cellAt_setCell inGrid_def fun_eq_iff)

lemma cellOf_rect: "rect w h m \<Longrightarrow> (cellOf m a \<noteq> None) = inGrid w h a"
  using cellAt_rect[of w h m "fst a" "snd a"] by (simp add: cellOf_def)

lemma grown_inside: "grown V R \<Longrightarrow> R u v \<Longrightarrow> u \<in> V \<and> v \<in> V"
  by (induction arbitrary: u v rule: grown.induct) auto

lemma grown_sym: "grown V R \<Longrightarrow> R u v \<Longrightarrow> R v u"
  by (induction arbitrary: u v rule: grown.induct) auto

lemma successively_inside:
  assumes "successively R p" "p \<noteq> []" "hd p \<in> V" "\<And>u v. R u v \<Longrightarrow> v \<in> V"
  shows "set p \<subseteq> V"
  using assms(1-3)
proof (induction p rule: induct_list012)
  case (3 x y zs)
  then show ?case using assms(4)[of x y] by auto
qed auto

lemma simplePath_rev:
  assumes "\<And>u v. R u v \<Longrightarrow> R v u"
  shows "simplePath R a b p = simplePath R b a (rev p)"
proof -
  have "successively (\<lambda>x y. R y x) p = successively R p"
    using assms by (auto elim: successively_mono)
  then show ?thesis
    by (auto simp: simplePath_def hd_rev last_rev)
qed

lemma simplePath_same:
  assumes "simplePath R a a p"
  shows "p = [a]"
proof (cases p)
  case Nil
  with assms show ?thesis by (simp add: simplePath_def)
next
  case (Cons x xs)
  show ?thesis
  proof (cases xs)
    case Nil
    with Cons assms show ?thesis by (simp add: simplePath_def)
  next
    case (Cons y ys)
    with \<open>p = x # xs\<close> assms have "x = a" "last xs = a" "x \<notin> set xs" "xs \<noteq> []"
      by (auto simp: simplePath_def)
    then show ?thesis using last_in_set[of xs] by auto
  qed
qed

text \<open>Around a leaf \<open>n\<close> whose only neighbour is \<open>c\<close>.\<close>

lemma leaf_not_inner:
  assumes s: "successively R' p" and d: "distinct p"
    and nb: "\<And>u. R' u n \<Longrightarrow> u = c" "\<And>v. R' n v \<Longrightarrow> v = c"
    and ends: "p \<noteq> []" "hd p \<noteq> n" "last p \<noteq> n"
  shows "n \<notin> set p"
proof
  assume "n \<in> set p"
  then obtain xs ys where p: "p = xs @ n # ys" by (auto dest: split_list)
  with ends have ne: "xs \<noteq> []" "ys \<noteq> []" by (auto simp: hd_append split: if_splits)
  from s p ne have "R' (last xs) n" "R' n (hd ys)"
    by (auto simp: successively_append_iff successively_Cons)
  then have "last xs = c" "hd ys = c" using nb by auto
  then have "c \<in> set xs" "c \<in> set ys" using ne last_in_set[of xs] hd_in_set[of ys] by auto
  with d p show False by auto
qed

lemma leaf_paths:
  assumes g: "\<And>u v. R u v \<Longrightarrow> u \<in> V \<and> v \<in> V" and sym: "\<And>u v. R u v \<Longrightarrow> R v u"
    and c: "c \<in> V" and n: "n \<notin> V"
    and R': "\<And>u v. R' u v = (R u v \<or> (u = c \<and> v = n) \<or> (u = n \<and> v = c))"
    and IH: "\<And>a b. a \<in> V \<Longrightarrow> b \<in> V \<Longrightarrow> \<exists>!p. simplePath R a b p"
    and a: "a \<in> insert n V" and b: "b \<in> insert n V"
  shows "\<exists>!p. simplePath R' a b p"
proof -
  have nb: "\<And>u. R' u n \<Longrightarrow> u = c" "\<And>v. R' n v \<Longrightarrow> v = c"
    using g n by (auto simp: R')
  have sym': "\<And>u v. R' u v \<Longrightarrow> R' v u" using sym by (auto simp: R')
  have down: "successively R p" if "successively R' p" "n \<notin> set p" for p
    using that(1)
  proof (rule successively_mono)
    fix x y assume "x \<in> set p" "y \<in> set p" "R' x y"
    with that(2) show "R x y" by (auto simp: R')
  qed
  have up: "successively R' p" if "successively R p" for p
    using that by (rule successively_mono) (simp add: R')
  have old: "\<exists>!p. simplePath R' a b p" if a: "a \<in> V" and b: "b \<in> V" for a b
  proof -
    from IH[OF a b] obtain p where p: "simplePath R a b p"
      and u: "\<And>q. simplePath R a b q \<Longrightarrow> q = p" by auto
    have "simplePath R' a b p" using p up by (auto simp: simplePath_def)
    moreover have "q = p" if q: "simplePath R' a b q" for q
    proof -
      have "n \<notin> set q"
        using q a b n
        by (intro leaf_not_inner[of R' q n c]) (auto simp: simplePath_def nb)
      with q have "simplePath R a b q" using down by (auto simp: simplePath_def)
      then show ?thesis by (rule u)
    qed
    ultimately show ?thesis by blast
  qed
  have fromleaf: "\<exists>!p. simplePath R' n b p" if b: "b \<in> V" for b
  proof -
    from IH[OF c b] obtain q where q: "simplePath R c b q"
      and u: "\<And>q'. simplePath R c b q' \<Longrightarrow> q' = q" by auto
    from q have qs: "q \<noteq> []" "hd q = c" "last q = b" "distinct q" "successively R q"
      by (auto simp: simplePath_def)
    have "set q \<subseteq> V"
      using qs c g by (intro successively_inside[of R q V]) auto
    with n have nq: "n \<notin> set q" by auto
    have "successively R' (n # q)"
      using qs up[of q] by (cases q) (auto simp: R')
    with qs nq have ex: "simplePath R' n b (n # q)" by (auto simp: simplePath_def)
    have "p = n # q" if p: "simplePath R' n b p" for p
    proof -
      from p obtain q' where pq: "p = n # q'" by (cases p) (auto simp: simplePath_def)
      from p b n have "q' \<noteq> []" by (auto simp: simplePath_def pq)
      then obtain x xs where q': "q' = x # xs" by (cases q') auto
      from p have "R' n x" by (simp add: simplePath_def pq q')
      then have "x = c" by (rule nb)
      from p have "n \<notin> set q'" "successively R' q'" "distinct q'" "last q' = b"
        by (auto simp: simplePath_def pq q')
      then have "simplePath R c b q'"
        using down[of q'] \<open>x = c\<close> by (auto simp: simplePath_def q')
      then show ?thesis using u pq by simp
    qed
    with ex show ?thesis by blast
  qed
  have toleaf: "\<exists>!p. simplePath R' a n p" if a: "a \<in> V" for a
  proof -
    from fromleaf[OF a] obtain p where p: "simplePath R' n a p"
      and u: "\<And>q. simplePath R' n a q \<Longrightarrow> q = p" by auto
    have "simplePath R' a n (rev p)"
      using p simplePath_rev[where R = R' and a = n and b = a and p = p] sym' by blast
    moreover have "q = rev p" if "simplePath R' a n q" for q
    proof -
      have "simplePath R' n a (rev q)" using that simplePath_rev[where R = R' and a = a and b = n and p = q] sym' by blast
      then have "rev q = p" by (rule u)
      then show ?thesis by auto
    qed
    ultimately show ?thesis by blast
  qed
  have self: "\<exists>!p. simplePath R' n n p"
  proof
    show "simplePath R' n n [n]" by (simp add: simplePath_def)
  next
    fix p assume "simplePath R' n n p" then show "p = [n]" by (rule simplePath_same)
  qed
  show ?thesis
  proof (cases "a = n")
    case an: True
    show ?thesis
    proof (cases "b = n")
      case True
      with an self show ?thesis by simp
    next
      case False
      with b have "b \<in> V" by simp
      with an fromleaf show ?thesis by simp
    qed
  next
    case an: False
    with a have aV: "a \<in> V" by simp
    show ?thesis
    proof (cases "b = n")
      case True
      with aV toleaf show ?thesis by simp
    next
      case False
      with b have "b \<in> V" by simp
      with aV old show ?thesis by simp
    qed
  qed
qed

lemma grown_unique_path:
  "grown V R \<Longrightarrow> a \<in> V \<Longrightarrow> b \<in> V \<Longrightarrow> \<exists>!p. simplePath R a b p"
proof (induction arbitrary: a b rule: grown.induct)
  case (root R r)
  then have ab: "a = r" "b = r" by auto
  have "simplePath R r r [r]" by (simp add: simplePath_def)
  moreover have "p = [r]" if "simplePath R r r p" for p using that by (rule simplePath_same)
  ultimately show ?case unfolding ab by blast
next
  case (leaf V R c n R')
  show ?case
  proof (rule leaf_paths[where R = R and V = V and c = c and n = n])
    show "\<And>u v. R u v \<Longrightarrow> u \<in> V \<and> v \<in> V" using grown_inside[OF leaf.hyps(1)] by blast
    show "\<And>u v. R u v \<Longrightarrow> R v u" using grown_sym[OF leaf.hyps(1)] by blast
    show "\<And>a b. a \<in> V \<Longrightarrow> b \<in> V \<Longrightarrow> \<exists>!p. simplePath R a b p" using leaf.IH by blast
  qed (use leaf in auto)
qed

lemma wall_clearWall [simp]: "wall d' (clearWall d c) = (d' \<noteq> d \<and> wall d' c)"
  by (cases d; cases d') auto

lemma visited_clearWall [simp]: "visited (clearWall d c) = visited c"
  by (cases d) auto

lemma wall_visited_update [simp]: "wall d (c\<lparr>visited := v\<rparr>) = wall d c"
  by (cases d) auto

lemma neighbour_neq [simp]: "neighbour d a \<noteq> a" "a \<noteq> neighbour d a"
  by (cases d; cases a; simp)+

lemma neighbour_inj [simp]: "(neighbour d a = neighbour d' a) = (d = d')"
  by (cases d; cases d'; cases a; simp)

lemma neighbour_opposite [simp]: "neighbour (opposite d) (neighbour d a) = a"
  by (cases d; cases a; simp)

lemma opposite_opposite [simp]: "opposite (opposite d) = d"
  by (cases d) auto

lemma neighbour_back: "neighbour d' (neighbour d a) = a \<longleftrightarrow> d' = opposite d"
  by (cases d; cases d'; cases a; simp)

lemma neighbour_eq_iff: "neighbour d' b = a \<longleftrightarrow> b = neighbour (opposite d') a"
  by (cases d'; cases a; cases b; auto)

lemma list_ex_dirs: "list_ex P [North, South, West, East] = (\<exists>d. P d)"
proof -
  have "d \<in> set [North, South, West, East]" for d by (cases d) auto
  then show ?thesis unfolding list_ex_iff by blast
qed

lemma passage_iff:
  "passage m a b \<longleftrightarrow>
   (\<exists>c d. cellOf m a = Some c \<and> cellOf m b \<noteq> None \<and> \<not> wall d c \<and> neighbour d a = b)"
  unfolding passage_def list_ex_dirs by (cases "cellOf m a") auto

lemma countCells_setCell:
  assumes "cellAt m x y = Some c"
  shows "countCells P (setCell m x y f) + (if P c then 1 else 0)
         = countCells P m + (if P (f c) then 1 else 0)"
proof -
  from assms have y: "0 \<le> y" "nat y < length m" and x: "0 \<le> x" "nat x < length (m ! nat y)"
    and c: "m ! nat y ! nat x = c"
    by (auto simp: cellAt_def elemAt_def split: option.splits if_splits)
  have row: "length (filter P (r[i := v])) + (if P (r ! i) then 1 else 0)
             = length (filter P r) + (if P v then 1 else 0)" if "i < length r" for r :: "cell list" and i v
    using that
  proof (induction r arbitrary: i)
    case (Cons a r)
    then show ?case by (cases i) auto
  qed simp
  have tot: "sum_list (map g (l[i := v])) + g (l ! i) = sum_list (map g l) + g v"
    if "i < length l" for l :: "cell list list" and g :: "cell list \<Rightarrow> nat" and i v
    using that
  proof (induction l arbitrary: i)
    case (Cons a l)
    then show ?case by (cases i) auto
  qed simp
  let ?g = "\<lambda>row. length (filter P row)"
  let ?r = "m ! nat y"
  have "sum_list (map ?g (m[nat y := ?r[nat x := f c]])) + ?g ?r = sum_list (map ?g m) + ?g (?r[nat x := f c])"
    using tot[OF y(2), of ?g] by simp
  moreover have "?g (?r[nat x := f c]) + (if P c then 1 else 0) = ?g ?r + (if P (f c) then 1 else 0)"
    using row[OF x(2), of "f c"] c by simp
  ultimately show ?thesis
    unfolding countCells_def setCell_def c by linarith
qed

lemma countCells_all:
  assumes r: "rect w h m" and all: "\<And>a. inGrid w h a \<Longrightarrow> \<exists>c. cellOf m a = Some c \<and> P c"
  shows "countCells P m = nat w * nat h"
proof -
  have rows: "length (filter P row) = nat w" if "row \<in> set m" for row
  proof -
    from that obtain j where j: "j < length m" "m ! j = row" by (auto simp: in_set_conv_nth)
    from r that have len: "length row = nat w" by (auto simp: rect_def list_all_iff)
    have "P x" if "x \<in> set row" for x
    proof -
      from that obtain i where i: "i < length row" "row ! i = x" by (auto simp: in_set_conv_nth)
      have "inGrid w h (int i, int j)" using i j len r by (auto simp: inGrid_def rect_def)
      from all[OF this] i j show ?thesis
        by (auto simp: cellOf_def cellAt_def elemAt_def)
    qed
    then have "filter P row = row" by (simp add: filter_id_conv)
    with len show ?thesis by simp
  qed
  have "sum_list (map (\<lambda>row. length (filter P row)) m) = sum_list (map (\<lambda>_. nat w) m)"
    by (rule arg_cong[where f = sum_list]) (simp add: rows)
  also have "\<dots> = nat w * nat h" using r by (simp add: sum_list_triv rect_def)
  finally show ?thesis by (simp add: countCells_def)
qed

lemma step_cells:
  assumes r: "rect w h m"
    and a: "cellOf m (x, y) = Some ca"
    and n: "neighbour d (x, y) = (nx, ny)" "cellOf m (nx, ny) = Some cn"
  shows "cellOf (setCell (setCell (setCell m x y (clearWall d)) nx ny (clearWall (opposite d)))
                   nx ny (\<lambda>c. c\<lparr>visited := True\<rparr>))
         = (\<lambda>b. if b = (nx, ny) then Some ((clearWall (opposite d) cn)\<lparr>visited := True\<rparr>)
                else if b = (x, y) then Some (clearWall d ca) else cellOf m b)"
proof -
  have ia: "inGrid w h (x, y)" using cellOf_rect[OF r, of "(x, y)"] a by simp
  have inn: "inGrid w h (nx, ny)" using cellOf_rect[OF r, of "(nx, ny)"] n by simp
  have ne: "(nx, ny) \<noteq> (x, y)" using n(1) neighbour_neq(1)[of d "(x, y)"] by simp
  show ?thesis
    using a n(2) ne
    by (auto simp: cellOf_setCell[OF ia] cellOf_setCell[OF inn] fun_eq_iff)
qed

lemma step_generic:
  assumes K: "wallsConsistent m" and B: "outerWalls m" and U: "unvisitedClosed m"
    and a: "cellOf m a = Some ca" "visited ca"
    and n: "cellOf m (neighbour d a) = Some cn" "\<not> visited cn"
    and m': "cellOf m' = (\<lambda>b. if b = neighbour d a
                                 then Some ((clearWall (opposite d) cn)\<lparr>visited := True\<rparr>)
                                 else if b = a then Some (clearWall d ca) else cellOf m b)"
  shows "wallsConsistent m'" and "outerWalls m'" and "unvisitedClosed m'"
    and "visitedSet m' = insert (neighbour d a) (visitedSet m)"
    and "\<And>u v. passage m' u v =
           (passage m u v \<or> (u = a \<and> v = neighbour d a) \<or> (u = neighbour d a \<and> v = a))"
proof -
  have cnw: "wall e cn" for e using U n unfolding unvisitedClosed_def by blast
  have Kd: "\<And>b e c c'. cellOf m b = Some c \<Longrightarrow> cellOf m (neighbour e b) = Some c' \<Longrightarrow>
              wall e c = wall (opposite e) c'"
    using K unfolding wallsConsistent_def by blast
  have Bd: "\<And>b e c. cellOf m b = Some c \<Longrightarrow> cellOf m (neighbour e b) = None \<Longrightarrow> wall e c"
    using B unfolding outerWalls_def by blast
  have Ud: "\<And>b e c. cellOf m b = Some c \<Longrightarrow> \<not> visited c \<Longrightarrow> wall e c"
    using U unfolding unvisitedClosed_def by blast
  have dom: "(cellOf m' b = None) = (cellOf m b = None)" for b
    using a n by (simp add: m')
  show "wallsConsistent m'"
    unfolding wallsConsistent_def
  proof (intro allI impI)
    fix b e c c'
    assume c: "cellOf m' b = Some c" and c': "cellOf m' (neighbour e b) = Some c'"
    show "wall e c = wall (opposite e) c'"
    proof (cases "b = neighbour d a")
      case bn: True
      then have cc: "c = (clearWall (opposite d) cn)\<lparr>visited := True\<rparr>" using c by (simp add: m')
      show ?thesis
      proof (cases "e = opposite d")
        case True
        then have "c' = clearWall d ca" using c' bn by (simp add: m')
        with cc True show ?thesis by simp
      next
        case False
        then have na: "neighbour e b \<noteq> a" using bn by (simp add: neighbour_back)
        then have "cellOf m (neighbour e b) = Some c'" using c' bn by (simp add: m')
        with Kd[OF n(1)[folded bn] this] cc False show ?thesis by simp
      qed
    next
      case bn: False
      show ?thesis
      proof (cases "b = a")
        case ba: True
        then have cc: "c = clearWall d ca" using c bn by (simp add: m')
        show ?thesis
        proof (cases "e = d")
          case True
          then have "c' = (clearWall (opposite d) cn)\<lparr>visited := True\<rparr>" using c' ba by (simp add: m')
          with cc True show ?thesis by simp
        next
          case False
          then have "neighbour e b \<noteq> neighbour d a" using ba by simp
          then have "cellOf m (neighbour e b) = Some c'" using c' ba by (simp add: m')
          with Kd[OF a(1)[folded ba] this] cc False show ?thesis by simp
        qed
      next
        case ba: False
        then have cb: "cellOf m b = Some c" using c bn by (simp add: m')
        show ?thesis
        proof (cases "neighbour e b = neighbour d a")
          case True
          then have c'': "c' = (clearWall (opposite d) cn)\<lparr>visited := True\<rparr>" using c' by (simp add: m')
          have "opposite e \<noteq> opposite d"
          proof
            assume "opposite e = opposite d"
            then have "e = d" by (metis opposite_opposite)
            with True have "neighbour (opposite d) (neighbour d b) = neighbour (opposite d) (neighbour d a)" by simp
            then have "b = a" by simp
            with ba show False by simp
          qed
          with Kd[OF cb n(1)[folded True]] c'' show ?thesis by simp
        next
          case nn: False
          show ?thesis
          proof (cases "neighbour e b = a")
            case True
            then have c'': "c' = clearWall d ca" using c' nn by (simp add: m')
            have "opposite e \<noteq> d"
            proof
              assume "opposite e = d"
              with True have "b = neighbour d a" by (simp add: neighbour_eq_iff)
              with bn show False by simp
            qed
            with Kd[OF cb a(1)[folded True]] c'' show ?thesis by simp
          next
            case False
            then have "cellOf m (neighbour e b) = Some c'" using c' nn by (simp add: m')
            from Kd[OF cb this] show ?thesis .
          qed
        qed
      qed
    qed
  qed
  show "outerWalls m'"
    unfolding outerWalls_def
  proof (intro allI impI)
    fix b e c
    assume c: "cellOf m' b = Some c" and no: "cellOf m' (neighbour e b) = None"
    from no have no': "cellOf m (neighbour e b) = None" by (simp add: dom)
    show "wall e c"
    proof (cases "b = neighbour d a")
      case True
      then have "c = (clearWall (opposite d) cn)\<lparr>visited := True\<rparr>" using c by (simp add: m')
      moreover have "e \<noteq> opposite d" using no' a True by auto
      ultimately show ?thesis using cnw by simp
    next
      case bn: False
      show ?thesis
      proof (cases "b = a")
        case True
        then have "c = clearWall d ca" using c bn by (simp add: m')
        moreover have "e \<noteq> d" using no' n True by auto
        moreover have "wall e ca" using Bd[OF a(1)] no' True by simp
        ultimately show ?thesis by simp
      next
        case False
        then have "cellOf m b = Some c" using c bn by (simp add: m')
        from Bd[OF this no'] show ?thesis .
      qed
    qed
  qed
  show "unvisitedClosed m'"
    unfolding unvisitedClosed_def
  proof (intro allI impI)
    fix b e c
    assume c: "cellOf m' b = Some c" and nv: "\<not> visited c"
    have "b \<noteq> neighbour d a" using c nv by (auto simp: m')
    moreover have "b \<noteq> a" using c nv a calculation by (auto simp: m')
    ultimately have "cellOf m b = Some c" using c by (simp add: m')
    from Ud[OF this nv] show "wall e c" .
  qed
  show "visitedSet m' = insert (neighbour d a) (visitedSet m)"
    using a n by (auto simp: visitedSet_def m' split: if_splits)
  show "passage m' u v =
           (passage m u v \<or> (u = a \<and> v = neighbour d a) \<or> (u = neighbour d a \<and> v = a))" for u v
  proof (cases "u = neighbour d a")
    case un: True
    have "\<not> passage m u v" using cnw n(1) un by (auto simp: passage_iff)
    moreover have "passage m' u v = (v = a)"
      using un cnw a by (auto simp: passage_iff dom m' neighbour_back)
    ultimately show ?thesis using un by auto
  next
    case un: False
    show ?thesis
    proof (cases "u = a")
      case True
      have "passage m' a v = (passage m a v \<or> v = neighbour d a)"
        using a n by (auto simp: passage_iff dom m')
      with True show ?thesis by auto
    next
      case False
      with un have "cellOf m' u = cellOf m u" by (simp add: m')
      then have "passage m' u v = passage m u v"
        unfolding passage_def using dom[of v] by (cases "cellOf m u") auto
      with False un show ?thesis by auto
    qed
  qed
qed

lemma cellAt_cellOf: "cellAt m x y = cellOf m (x, y)"
  by (simp add: cellOf_def)

lemma step_counts:
  assumes r: "rect w h m" and K: "wallsConsistent m" and U: "unvisitedClosed m"
    and a: "cellOf m (x, y) = Some ca"
    and n: "neighbour d (x, y) = (nx, ny)" "cellOf m (nx, ny) = Some cn" "\<not> visited cn"
  defines "m3 \<equiv> setCell (setCell (setCell m x y (clearWall d)) nx ny (clearWall (opposite d)))
                   nx ny (\<lambda>c. c\<lparr>visited := True\<rparr>)"
  shows "countCells (\<lambda>c. \<not> wall e c) m3
         = countCells (\<lambda>c. \<not> wall e c) m + (if e = d then 1 else 0) + (if e = opposite d then 1 else 0)"
    and "countCells visited m3 = countCells visited m + 1"
proof -
  let ?m1 = "setCell m x y (clearWall d)"
  let ?m2 = "setCell ?m1 nx ny (clearWall (opposite d))"
  have ia: "inGrid w h (x, y)" using cellOf_rect[OF r, of "(x, y)"] a by simp
  have inn: "inGrid w h (nx, ny)" using cellOf_rect[OF r, of "(nx, ny)"] n by simp
  have ne: "(nx, ny) \<noteq> (x, y)" using n(1) neighbour_neq(1)[of d "(x, y)"] by simp
  have cnw: "wall e' cn" for e' using U n unfolding unvisitedClosed_def by blast
  have caw: "wall d ca"
    using K a n cnw[of "opposite d"] unfolding wallsConsistent_def by (metis n(1))
  have c0: "cellAt m x y = Some ca" using a by (simp add: cellAt_cellOf)
  have c1: "cellAt ?m1 nx ny = Some cn"
    using n(2) ne by (auto simp: cellAt_cellOf cellOf_setCell[OF ia])
  have c2: "cellAt ?m2 nx ny = Some (clearWall (opposite d) cn)"
    using c1 by (simp add: cellAt_cellOf cellOf_setCell[OF inn])
  note s0 = countCells_setCell[OF c0, of _ "clearWall d"]
  note s1 = countCells_setCell[OF c1, of _ "clearWall (opposite d)"]
  note s2 = countCells_setCell[OF c2, of _ "\<lambda>c. c\<lparr>visited := True\<rparr>"]
  show "countCells (\<lambda>c. \<not> wall e c) m3
         = countCells (\<lambda>c. \<not> wall e c) m + (if e = d then 1 else 0) + (if e = opposite d then 1 else 0)"
    using s0[of "\<lambda>c. \<not> wall e c"] s1[of "\<lambda>c. \<not> wall e c"] s2[of "\<lambda>c. \<not> wall e c"] caw cnw[of e]
    unfolding m3_def by (auto split: if_splits)
  show "countCells visited m3 = countCells visited m + 1"
    using s0[of visited] s1[of visited] s2[of visited] n(3)
    unfolding m3_def by (auto split: if_splits)
qed

lemma step_Inv:
  assumes I: "Inv w h m"
    and a: "cellOf m (x, y) = Some ca" "visited ca"
    and n: "neighbour d (x, y) = (nx, ny)" "cellOf m (nx, ny) = Some cn" "\<not> visited cn"
  defines "m3 \<equiv> setCell (setCell (setCell m x y (clearWall d)) nx ny (clearWall (opposite d)))
                   nx ny (\<lambda>c. c\<lparr>visited := True\<rparr>)"
  shows "Inv w h m3" and "visitedSet m3 = insert (nx, ny) (visitedSet m)"
proof -
  from I have r: "rect w h m" and K: "wallsConsistent m" and B: "outerWalls m"
    and U: "unvisitedClosed m" and G: "grown (visitedSet m) (passage m)"
    and C1: "countCells (\<lambda>c. \<not> east c) m + countCells (\<lambda>c. \<not> south c) m + 1 = countCells visited m"
    and C2: "countCells (\<lambda>c. \<not> west c) m + countCells (\<lambda>c. \<not> north c) m + 1 = countCells visited m"
    by (simp_all add: Inv_def)
  have cells: "cellOf m3 = (\<lambda>b. if b = neighbour d (x, y)
                                 then Some ((clearWall (opposite d) cn)\<lparr>visited := True\<rparr>)
                                 else if b = (x, y) then Some (clearWall d ca) else cellOf m b)"
    unfolding m3_def n(1) by (rule step_cells[OF r a(1) n(1) n(2)])
  have n': "cellOf m (neighbour d (x, y)) = Some cn" using n by simp
  note g = step_generic[OF K B U a n' n(3) cells]
  have r3: "rect w h m3" unfolding m3_def by (intro rect_setCell r)
  have av: "(x, y) \<in> visitedSet m" using a by (simp add: visitedSet_def)
  have nv: "neighbour d (x, y) \<notin> visitedSet m" using n by (simp add: visitedSet_def)
  have G3: "grown (visitedSet m3) (passage m3)"
    unfolding g(4) by (rule grown.leaf[OF G av nv]) (rule g(5))
  note cw = step_counts(1)[OF r K U a(1) n, folded m3_def]
  note cv = step_counts(2)[OF r K U a(1) n, folded m3_def]
  have e: "(\<lambda>c. \<not> east c) = (\<lambda>c. \<not> wall East c)" "(\<lambda>c. \<not> south c) = (\<lambda>c. \<not> wall South c)"
    "(\<lambda>c. \<not> west c) = (\<lambda>c. \<not> wall West c)" "(\<lambda>c. \<not> north c) = (\<lambda>c. \<not> wall North c)"
    by simp_all
  have C13: "countCells (\<lambda>c. \<not> east c) m3 + countCells (\<lambda>c. \<not> south c) m3 + 1 = countCells visited m3"
    using C1 cv unfolding e cw[of East] cw[of South] by (cases d) simp_all
  have C23: "countCells (\<lambda>c. \<not> west c) m3 + countCells (\<lambda>c. \<not> north c) m3 + 1 = countCells visited m3"
    using C2 cv unfolding e cw[of West] cw[of North] by (cases d) simp_all
  show "Inv w h m3"
    unfolding Inv_def using r3 g(1,2,3) G3 C13 C23 by blast
  show "visitedSet m3 = insert (nx, ny) (visitedSet m)"
    using g(4) n(1) by simp
qed

lemma shuffleFrom_set:
  assumes "randomOK rnd"
  shows "i < length xs \<Longrightarrow> set (fst (shuffleFrom rnd i xs k)) = set xs"
proof (induction i arbitrary: xs k)
  case 0
  then show ?case by simp
next
  case (Suc i)
  define j where "j = nat \<lfloor>rnd k * real (Suc i + 1)\<rfloor>"
  have "rnd k * real (Suc i + 1) < real (Suc i + 1)"
    using assms by (simp add: randomOK_def)
  then have "\<lfloor>rnd k * real (Suc i + 1)\<rfloor> < int (Suc i + 1)"
    by (simp add: floor_less_iff)
  then have j: "j < length xs" using Suc.prems by (simp add: j_def)
  let ?ys = "xs[Suc i := xs ! j, j := xs ! Suc i]"
  have "set ?ys = set xs" using Suc.prems j by (rule set_swap)
  moreover have "i < length ?ys" using Suc.prems by simp
  ultimately have "set (fst (shuffleFrom rnd i ?ys (Suc k))) = set xs"
    using Suc.IH[of ?ys "Suc k"] by simp
  then show ?case by (simp add: j_def Let_def)
qed

lemma shuffle_dirs:
  assumes "randomOK rnd"
  shows "d \<in> set (fst (shuffle rnd [North, South, West, East] k))"
proof -
  have "set (fst (shuffle rnd [North, South, West, East] k)) = set [North, South, West, East]"
    unfolding shuffle_def by (rule shuffleFrom_set[OF assms]) simp
  then show ?thesis by (cases d) auto
qed

lemma finite_inGrid: "finite {a. inGrid w h a}"
proof -
  have "{a. inGrid w h a} \<subseteq> {0..<w} \<times> {0..<h}" by (auto simp: inGrid_def)
  then show ?thesis by (rule finite_subset) simp
qed

lemma unv_mono: "visitedSet m \<subseteq> visitedSet m' \<Longrightarrow> unv w h m' \<le> unv w h m"
  unfolding unv_def by (intro card_mono finite_Diff finite_inGrid) auto

lemma unv_insert:
  assumes "visitedSet m' = insert a (visitedSet m)" "inGrid w h a" "a \<notin> visitedSet m"
  shows "unv w h m' < unv w h m"
  unfolding unv_def
proof (rule psubset_card_mono)
  show "finite ({a. inGrid w h a} - visitedSet m)" by (intro finite_Diff finite_inGrid)
  show "{a. inGrid w h a} - visitedSet m' \<subset> {a. inGrid w h a} - visitedSet m"
    using assms by auto
qed

lemma visitedSet_mark:
  assumes "rect w h m" "cellOf m (x, y) = Some c"
  shows "visitedSet (setCell m x y (\<lambda>c. c\<lparr>visited := True\<rparr>)) = insert (x, y) (visitedSet m)"
proof -
  have ia: "inGrid w h (x, y)" using cellOf_rect[OF assms(1), of "(x, y)"] assms(2) by simp
  show ?thesis
    using assms(2) by (auto simp: visitedSet_def cellOf_setCell[OF ia] split: if_splits)
qed

lemma carve_Nil: "carve rnd w h (ForDirs x y []) st = Some (Inr st)"
  by (subst carve.simps) simp

lemma carve_Cons_skip:
  assumes "\<not> inGrid w h (neighbour d (x, y)) \<or>
           (\<exists>c. cellOf (maze st) (neighbour d (x, y)) = Some c \<and> visited c)"
  shows "carve rnd w h (ForDirs x y (d # ds)) st = carve rnd w h (ForDirs x y ds) st"
  using assms
  by (subst carve.simps) (auto simp: inGrid_def cellOf_def split: prod.splits)

lemma carve_Cons_go:
  assumes "neighbour d (x, y) = (nx, ny)" "inGrid w h (nx, ny)"
    "cellOf (maze st) (nx, ny) = Some c" "\<not> visited c"
  shows "carve rnd w h (ForDirs x y (d # ds)) st =
         Option.bind
           (carve rnd w h (Carve nx ny)
              (st\<lparr>maze := setCell (setCell (maze st) x y (clearWall d)) nx ny (clearWall (opposite d))\<rparr>))
           (\<lambda>r. case r of Inl e \<Rightarrow> Some (Inl e)
                 | Inr st' \<Rightarrow> carve rnd w h (ForDirs x y ds) st')"
  using assms
  by (subst carve.simps) (auto simp: inGrid_def cellOf_def)

lemma carve_Carve:
  assumes "cellOf (maze st) (x, y) = Some c"
  shows "carve rnd w h (Carve x y) st =
         carve rnd w h (ForDirs x y (fst (shuffle rnd [North, South, West, East] (draws st))))
           (st\<lparr>maze := setCell (maze st) x y (\<lambda>c. c\<lparr>visited := True\<rparr>),
               draws := snd (shuffle rnd [North, South, West, East] (draws st))\<rparr>)"
  using assms
  by (subst carve.simps) (simp add: cellOf_def split: prod.splits)

lemma carve_Carve_missing:
  assumes "cellOf (maze st) (x, y) = None"
  shows "carve rnd w h (Carve x y) st = Some (Inl TypeError)"
  using assms
  by (subst carve.simps) (simp add: cellOf_def)

lemma dirs_from_carve:
  assumes C: "carveOK rnd w h k"
  shows "dirsOK rnd w h (Suc k)"
  unfolding dirsOK_def
proof (intro allI impI)
  fix st :: gen and x y ds
  assume pre: "Inv w h (maze st) \<and> (x, y) \<in> visitedSet (maze st) \<and> unv w h (maze st) < Suc k"
  then show "\<exists>st'. carve rnd w h (ForDirs x y ds) st = Some (Inr st') \<and>
               Post w h (visitedSet (maze st)) (maze st') \<and>
               (\<forall>d \<in> set ds. inGrid w h (neighbour d (x, y)) \<longrightarrow>
                    neighbour d (x, y) \<in> visitedSet (maze st'))"
  proof (induction ds arbitrary: st)
    case Nil
    then show ?case by (auto simp: carve_Nil Post_def)
  next
    case (Cons d ds)
    let ?m = "maze st"
    from Cons.prems have I: "Inv w h ?m" and av: "(x, y) \<in> visitedSet ?m"
      and u: "unv w h ?m < Suc k" by auto
    from I have r: "rect w h ?m" by (simp add: Inv_def)
    obtain nx ny where n: "neighbour d (x, y) = (nx, ny)" by (cases "neighbour d (x, y)")
    show ?case
    proof (cases "inGrid w h (nx, ny) \<and> (nx, ny) \<notin> visitedSet ?m")
      case False
      then have skip: "\<not> inGrid w h (neighbour d (x, y)) \<or>
           (\<exists>c. cellOf ?m (neighbour d (x, y)) = Some c \<and> visited c)"
        using cellOf_rect[OF r, of "(nx, ny)"] by (auto simp: n visitedSet_def)
      from Cons.IH[OF Cons.prems] obtain st' where
        st': "carve rnd w h (ForDirs x y ds) st = Some (Inr st')"
        "Post w h (visitedSet ?m) (maze st')"
        "\<forall>d \<in> set ds. inGrid w h (neighbour d (x, y)) \<longrightarrow> neighbour d (x, y) \<in> visitedSet (maze st')"
        by blast
      have "inGrid w h (neighbour d (x, y)) \<longrightarrow> neighbour d (x, y) \<in> visitedSet (maze st')"
        using False st'(2) by (auto simp: n Post_def)
      with st' show ?thesis
        by (auto simp: carve_Cons_skip[OF skip])
    next
      case True
      then have inn: "inGrid w h (nx, ny)" and nv: "(nx, ny) \<notin> visitedSet ?m" by auto
      from inn obtain cn where cn: "cellOf ?m (nx, ny) = Some cn"
        using cellOf_rect[OF r, of "(nx, ny)"] by auto
      with nv have cnv: "\<not> visited cn" by (auto simp: visitedSet_def)
      from av obtain ca where ca: "cellOf ?m (x, y) = Some ca" "visited ca"
        by (auto simp: visitedSet_def)
      have ia: "inGrid w h (x, y)" using cellOf_rect[OF r, of "(x, y)"] ca by simp
      have ne: "(nx, ny) \<noteq> (x, y)" using n neighbour_neq(1)[of d "(x, y)"] by simp
      let ?m2 = "setCell (setCell ?m x y (clearWall d)) nx ny (clearWall (opposite d))"
      let ?m3 = "setCell ?m2 nx ny (\<lambda>c. c\<lparr>visited := True\<rparr>)"
      let ?st2 = "st\<lparr>maze := ?m2\<rparr>"
      note s = step_Inv[OF I ca n cn cnv]
      have r2: "rect w h ?m2" by (intro rect_setCell r)
      have c2: "cellOf ?m2 (nx, ny) = Some (clearWall (opposite d) cn)"
        using cn ne by (auto simp: cellOf_setCell[OF ia] cellOf_setCell[OF inn])
      have v2: "visitedSet ?m2 = visitedSet ?m"
        using ca cn ne
        by (auto simp: visitedSet_def cellOf_setCell[OF ia] cellOf_setCell[OF inn] split: if_splits)
      have u3: "unv w h ?m3 < k"
        using unv_insert[OF s(2) inn nv] u by simp
      have "rect w h (maze ?st2) \<and> cellOf (maze ?st2) (nx, ny) = Some (clearWall (opposite d) cn) \<and>
            \<not> visited (clearWall (opposite d) cn) \<and>
            Inv w h (setCell (maze ?st2) nx ny (\<lambda>c. c\<lparr>visited := True\<rparr>)) \<and>
            unv w h (setCell (maze ?st2) nx ny (\<lambda>c. c\<lparr>visited := True\<rparr>)) < k"
        using r2 c2 cnv s(1) u3 by simp
      with C[unfolded carveOK_def, rule_format, of ?st2 nx ny "clearWall (opposite d) cn"]
      obtain st1 where st1: "carve rnd w h (Carve nx ny) ?st2 = Some (Inr st1)"
        "Post w h (insert (nx, ny) (visitedSet ?m)) (maze st1)"
        "\<forall>e. inGrid w h (neighbour e (nx, ny)) \<longrightarrow> neighbour e (nx, ny) \<in> visitedSet (maze st1)"
        by (auto simp: v2)
      from st1(2) have I1: "Inv w h (maze st1)"
        and sub1: "insert (nx, ny) (visitedSet ?m) \<subseteq> visitedSet (maze st1)"
        and cl1: "\<forall>a \<in> visitedSet (maze st1) - insert (nx, ny) (visitedSet ?m).
                    \<forall>e. inGrid w h (neighbour e a) \<longrightarrow> neighbour e a \<in> visitedSet (maze st1)"
        by (auto simp: Post_def)
      have "unv w h (maze st1) \<le> unv w h ?m" using sub1 by (intro unv_mono) auto
      with u have u1: "unv w h (maze st1) < Suc k" by simp
      have "Inv w h (maze st1) \<and> (x, y) \<in> visitedSet (maze st1) \<and> unv w h (maze st1) < Suc k"
        using I1 sub1 av u1 by auto
      from Cons.IH[OF this] obtain st' where
        st': "carve rnd w h (ForDirs x y ds) st1 = Some (Inr st')"
        "Post w h (visitedSet (maze st1)) (maze st')"
        "\<forall>e \<in> set ds. inGrid w h (neighbour e (x, y)) \<longrightarrow> neighbour e (x, y) \<in> visitedSet (maze st')"
        by blast
      from st'(2) have I': "Inv w h (maze st')"
        and sub': "visitedSet (maze st1) \<subseteq> visitedSet (maze st')"
        and cl': "\<forall>a \<in> visitedSet (maze st') - visitedSet (maze st1).
                    \<forall>e. inGrid w h (neighbour e a) \<longrightarrow> neighbour e a \<in> visitedSet (maze st')"
        by (auto simp: Post_def)
      have run: "carve rnd w h (ForDirs x y (d # ds)) st = Some (Inr st')"
        by (simp add: carve_Cons_go[OF n inn cn cnv] st1(1) st'(1))
      have closed: "neighbour e a \<in> visitedSet (maze st')"
        if a: "a \<in> visitedSet (maze st') - visitedSet ?m" and e: "inGrid w h (neighbour e a)" for a e
      proof (cases "a \<in> visitedSet (maze st1)")
        case False
        with a cl' e show ?thesis by auto
      next
        case a1: True
        show ?thesis
        proof (cases "a = (nx, ny)")
          case True
          with st1(3) e sub' show ?thesis by auto
        next
          case False
          with a a1 cl1 e sub' show ?thesis by auto
        qed
      qed
      have post: "Post w h (visitedSet ?m) (maze st')"
        unfolding Post_def using I' sub1 sub' closed by auto
      have "neighbour d (x, y) \<in> visitedSet (maze st')" using sub1 sub' n by auto
      with run post st'(3) show ?thesis by auto
    qed
  qed
qed

lemma carve_from_dirs:
  assumes R: "randomOK rnd" and D: "dirsOK rnd w h k"
  shows "carveOK rnd w h k"
  unfolding carveOK_def
proof (intro allI impI)
  fix st :: gen and x y c
  let ?m1 = "setCell (maze st) x y (\<lambda>c. c\<lparr>visited := True\<rparr>)"
  let ?dirs = "fst (shuffle rnd [North, South, West, East] (draws st))"
  let ?st1 = "st\<lparr>maze := ?m1, draws := snd (shuffle rnd [North, South, West, East] (draws st))\<rparr>"
  assume pre: "rect w h (maze st) \<and> cellOf (maze st) (x, y) = Some c \<and> \<not> visited c \<and>
        Inv w h ?m1 \<and> unv w h ?m1 < k"
  then have r: "rect w h (maze st)" and c: "cellOf (maze st) (x, y) = Some c"
    and I1: "Inv w h ?m1" and u1: "unv w h ?m1 < k" by auto
  have v1: "visitedSet ?m1 = insert (x, y) (visitedSet (maze st))"
    by (rule visitedSet_mark[OF r c])
  have "Inv w h (maze ?st1) \<and> (x, y) \<in> visitedSet (maze ?st1) \<and> unv w h (maze ?st1) < k"
    using I1 u1 v1 by simp
  with D[unfolded dirsOK_def, rule_format, of ?st1 x y ?dirs]
  obtain st' where st': "carve rnd w h (ForDirs x y ?dirs) ?st1 = Some (Inr st')"
    "Post w h (visitedSet ?m1) (maze st')"
    "\<forall>d \<in> set ?dirs. inGrid w h (neighbour d (x, y)) \<longrightarrow> neighbour d (x, y) \<in> visitedSet (maze st')"
    by auto
  have "carve rnd w h (Carve x y) st = Some (Inr st')"
    by (simp add: carve_Carve[OF c] st'(1))
  moreover have "\<forall>d. inGrid w h (neighbour d (x, y)) \<longrightarrow> neighbour d (x, y) \<in> visitedSet (maze st')"
    using st'(3) shuffle_dirs[OF R] by blast
  ultimately show "\<exists>st'. carve rnd w h (Carve x y) st = Some (Inr st') \<and>
               Post w h (insert (x, y) (visitedSet (maze st))) (maze st') \<and>
               (\<forall>d. inGrid w h (neighbour d (x, y)) \<longrightarrow>
                    neighbour d (x, y) \<in> visitedSet (maze st'))"
    using st'(2) v1 by auto
qed

lemma carve_total:
  assumes R: "randomOK rnd"
  shows "carveOK rnd w h k \<and> dirsOK rnd w h k"
proof (induction k)
  case 0
  show ?case by (simp add: carveOK_def dirsOK_def)
next
  case (Suc k)
  then have "dirsOK rnd w h (Suc k)" by (auto intro: dirs_from_carve)
  then show ?case using carve_from_dirs[OF R] by blast
qed

lemma rect_initMaze: "rect w h (initMaze w h)"
  by (simp add: rect_def initMaze_def list_all_iff)

lemma cellOf_initMaze:
  "cellOf (initMaze w h) a = (if inGrid w h a then Some freshCell else None)"
  by (auto simp: cellOf_def cellAt_def elemAt_def initMaze_def inGrid_def split: option.splits if_splits)

lemma countCells_initMaze: "\<not> P freshCell \<Longrightarrow> countCells P (initMaze w h) = 0"
  by (simp add: countCells_def initMaze_def)

lemma Inv_start:
  assumes w: "1 \<le> w" and h: "1 \<le> h"
  defines "m1 \<equiv> setCell (initMaze w h) 0 0 (\<lambda>c. c\<lparr>visited := True\<rparr>)"
  shows "Inv w h m1"
proof -
  have i0: "inGrid w h (0, 0)" using w h by (simp add: inGrid_def)
  have cells: "cellOf m1 a = (if a = (0, 0) then Some (freshCell\<lparr>visited := True\<rparr>)
                              else if inGrid w h a then Some freshCell else None)" for a
    using i0 by (simp add: m1_def cellOf_setCell[OF i0] cellOf_initMaze)
  have walls: "wall d c" if "cellOf m1 a = Some c" for a d c
    using that by (cases d) (auto simp: cells freshCell_def split: if_splits)
  have c0: "cellAt (initMaze w h) 0 0 = Some freshCell"
    using i0 by (simp add: cellAt_cellOf cellOf_initMaze)
  have cnt: "countCells P m1 = (if P (freshCell\<lparr>visited := True\<rparr>) then 1 else 0)"
    if "\<not> P freshCell" for P
    using countCells_setCell[OF c0, of P "\<lambda>c. c\<lparr>visited := True\<rparr>"] that
    by (simp add: m1_def countCells_initMaze)
  have "rect w h m1" unfolding m1_def by (intro rect_setCell rect_initMaze)
  moreover have "wallsConsistent m1" unfolding wallsConsistent_def using walls by blast
  moreover have "outerWalls m1" unfolding outerWalls_def using walls by blast
  moreover have "unvisitedClosed m1" unfolding unvisitedClosed_def using walls by blast
  moreover have "grown (visitedSet m1) (passage m1)"
  proof -
    have "visitedSet m1 = {(0, 0)}"
      by (auto simp: visitedSet_def cells freshCell_def split: if_splits)
    moreover have "\<not> passage m1 u v" for u v
      using walls by (auto simp: passage_iff)
    ultimately show ?thesis by (simp add: grown.root)
  qed
  moreover have "countCells (\<lambda>c. \<not> east c) m1 + countCells (\<lambda>c. \<not> south c) m1 + 1 = countCells visited m1"
    by (simp add: cnt freshCell_def)
  moreover have "countCells (\<lambda>c. \<not> west c) m1 + countCells (\<lambda>c. \<not> north c) m1 + 1 = countCells visited m1"
    by (simp add: cnt freshCell_def)
  ultimately show ?thesis unfolding Inv_def by blast
qed

lemma closed_covers:
  assumes o: "(0, 0) \<in> V"
    and cl: "\<And>a d. a \<in> V \<Longrightarrow> inGrid w h (neighbour d a) \<Longrightarrow> neighbour d a \<in> V"
    and a: "inGrid w h (x, y)"
  shows "(x, y) \<in> V"
proof -
  from a have x: "0 \<le> x" "x < w" and y: "0 \<le> y" "y < h" by (auto simp: inGrid_def)
  have row: "i < w \<longrightarrow> (i, 0) \<in> V" if "0 \<le> i" for i
    using that
  proof (induction i rule: int_ge_induct)
    case base
    show ?case using o by simp
  next
    case (step i)
    show ?case
    proof
      assume lt: "i + 1 < w"
      with step have "(i, 0) \<in> V" by simp
      moreover have "inGrid w h (neighbour East (i, 0))"
        using lt step.hyps y by (simp add: inGrid_def)
      ultimately have "neighbour East (i, 0) \<in> V" by (rule cl)
      then show "(i + 1, 0) \<in> V" by simp
    qed
  qed
  have col: "j < h \<longrightarrow> (x, j) \<in> V" if "0 \<le> j" for j
    using that
  proof (induction j rule: int_ge_induct)
    case base
    show ?case using row[OF x(1)] x(2) by simp
  next
    case (step j)
    show ?case
    proof
      assume lt: "j + 1 < h"
      with step have "(x, j) \<in> V" by simp
      moreover have "inGrid w h (neighbour South (x, j))"
        using lt step.hyps x by (simp add: inGrid_def)
      ultimately have "neighbour South (x, j) \<in> V" by (rule cl)
      then show "(x, j + 1) \<in> V" by simp
    qed
  qed
  show ?thesis using col[OF y(1)] y(2) by simp
qed

lemma generateMaze_Inv:
  assumes w: "1 \<le> w" and h: "1 \<le> h" and R: "randomOK rnd"
  shows "\<exists>m. generateMaze rnd w h = Some (Inr m) \<and> Inv w h m \<and> visitedSet m = {a. inGrid w h a}"
proof -
  let ?st = "\<lparr>maze = initMaze w h, draws = 0\<rparr>"
  let ?m1 = "setCell (initMaze w h) 0 0 (\<lambda>c. c\<lparr>visited := True\<rparr>)"
  have i0: "inGrid w h (0, 0)" using w h by (simp add: inGrid_def)
  have v0: "visitedSet (initMaze w h) = {}"
    by (auto simp: visitedSet_def cellOf_initMaze freshCell_def split: if_splits)
  have "carveOK rnd w h (Suc (unv w h ?m1))" using carve_total[OF R] by blast
  from this[unfolded carveOK_def, rule_format, of ?st 0 0 freshCell]
  obtain st' where st': "carve rnd w h (Carve 0 0) ?st = Some (Inr st')"
    "Post w h {(0, 0)} (maze st')"
    "\<forall>d. inGrid w h (neighbour d (0, 0)) \<longrightarrow> neighbour d (0, 0) \<in> visitedSet (maze st')"
    using i0 Inv_start[OF w h] by (auto simp: rect_initMaze cellOf_initMaze freshCell_def v0)
  let ?V = "visitedSet (maze st')"
  from st'(2) have I: "Inv w h (maze st')" and o: "(0, 0) \<in> ?V"
    and cl: "\<forall>a \<in> ?V - {(0, 0)}. \<forall>d. inGrid w h (neighbour d a) \<longrightarrow> neighbour d a \<in> ?V"
    by (auto simp: Post_def)
  have closed: "neighbour d a \<in> ?V" if "a \<in> ?V" "inGrid w h (neighbour d a)" for a d
    using that cl st'(3) by (cases "a = (0, 0)") auto
  have "(x, y) \<in> ?V" if "inGrid w h (x, y)" for x y
    using o closed that by (rule closed_covers)
  moreover have "inGrid w h a" if "a \<in> ?V" for a
  proof -
    from I have "rect w h (maze st')" by (simp add: Inv_def)
    from cellOf_rect[OF this, of a] that show ?thesis by (auto simp: visitedSet_def)
  qed
  ultimately have "?V = {a. inGrid w h a}" by auto
  with I st'(1) show ?thesis by (simp add: generateMaze_def)
qed

lemma forEach_upt:
  assumes step: "\<And>i s. a \<le> i \<Longrightarrow> i < b \<Longrightarrow> I i s \<Longrightarrow> \<exists>s'. body i s = Inr s' \<and> I (Suc i) s'"
    and init: "I a s" and le: "a \<le> b"
  shows "\<exists>s'. forEach [a..<b] body s = Inr s' \<and> I b s'"
  using init le step
proof (induction "b - a" arbitrary: a s)
  case 0
  then show ?case by simp
next
  case (Suc n)
  then have lt: "a < b" by simp
  from Suc.prems(3)[OF le_refl lt Suc.prems(1)] obtain s1 where
    s1: "body a s = Inr s1" "I (Suc a) s1" by blast
  have "n = b - Suc a" using Suc.hyps(2) by simp
  from Suc.hyps(1)[OF this s1(2)] lt Suc.prems(3)
  obtain s' where "forEach [Suc a..<b] body s1 = Inr s'" "I b s'"
    by (metis Suc_leD Suc_leI)
  with s1(1) lt show ?case by (simp add: upt_conv_Cons)
qed

lemma rect_put: "rect w h g \<Longrightarrow> rect w h (put g gy gx v)"
proof (cases "gy < length g")
  case True
  assume r: "rect w h g"
  then have "length (g ! gy) = nat w" using True by (simp add: rect_def list_all_length)
  with r True show ?thesis
    by (auto simp: rect_def put_def list_all_length nth_list_update)
next
  case False
  assume "rect w h g"
  with False show ?thesis by (simp add: put_def list_update_beyond)
qed

lemma nth_put:
  assumes "rect w h g" "gy < nat h" "gx < nat w" "i < nat h" "j < nat w"
  shows "put g gy gx v ! i ! j = (if i = gy \<and> j = gx then v else g ! i ! j)"
proof -
  from assms have "length g = nat h" "length (g ! gy) = nat w"
    by (simp_all add: rect_def list_all_length)
  with assms show ?thesis by (auto simp: put_def nth_list_update)
qed

text \<open>What one pass of the inner loop body does to a grid of the right size.\<close>

lemma gridCell_effect:
  assumes r: "rect (2 * w + 1) (2 * h + 1) g"
    and c: "cellAt m (int x) (int y) = Some c" and x: "int x < w" and y: "int y < h"
  shows "\<exists>g'. gridCell m y x g = Inr g' \<and> rect (2 * w + 1) (2 * h + 1) g' \<and>
           (\<forall>i j. i < nat (2 * h + 1) \<longrightarrow> j < nat (2 * w + 1) \<longrightarrow>
              g' ! i ! j =
                (if (i = 2 * y + 1 \<and> j = 2 * x + 1) \<or>
                    (\<not> north c \<and> i = 2 * y \<and> j = 2 * x + 1) \<or>
                    (\<not> south c \<and> i = 2 * y + 2 \<and> j = 2 * x + 1) \<or>
                    (\<not> west c \<and> i = 2 * y + 1 \<and> j = 2 * x) \<or>
                    (\<not> east c \<and> i = 2 * y + 1 \<and> j = 2 * x + 2)
                 then 0 else g ! i ! j))"
proof -
  let ?W = "2 * w + 1" and ?H = "2 * h + 1"
  define g1 where "g1 = put g (y * 2 + 1) (x * 2 + 1) 0"
  define g2 where "g2 = (if \<not> north c then put g1 (y * 2 + 1 - 1) (x * 2 + 1) 0 else g1)"
  define g3 where "g3 = (if \<not> south c then put g2 (y * 2 + 1 + 1) (x * 2 + 1) 0 else g2)"
  define g4 where "g4 = (if \<not> west c then put g3 (y * 2 + 1) (x * 2 + 1 - 1) 0 else g3)"
  define g5 where "g5 = (if \<not> east c then put g4 (y * 2 + 1) (x * 2 + 1 + 1) 0 else g4)"
  have run: "gridCell m y x g = Inr g5"
    by (simp add: gridCell_def c Let_def g1_def g2_def g3_def g4_def g5_def)
  have r1: "rect ?W ?H g1" unfolding g1_def by (intro rect_put r)
  have r2: "rect ?W ?H g2" unfolding g2_def using r1 by (simp add: rect_put)
  have r3: "rect ?W ?H g3" unfolding g3_def using r2 by (simp add: rect_put)
  have r4: "rect ?W ?H g4" unfolding g4_def using r3 by (simp add: rect_put)
  have r5: "rect ?W ?H g5" unfolding g5_def using r4 by (simp add: rect_put)
  have bx: "x * 2 + 1 < nat ?W" "x * 2 + 1 - 1 < nat ?W" "x * 2 + 1 + 1 < nat ?W"
    using x by auto
  have by': "y * 2 + 1 < nat ?H" "y * 2 + 1 - 1 < nat ?H" "y * 2 + 1 + 1 < nat ?H"
    using y by auto
  have "g5 ! i ! j =
                (if (i = 2 * y + 1 \<and> j = 2 * x + 1) \<or>
                    (\<not> north c \<and> i = 2 * y \<and> j = 2 * x + 1) \<or>
                    (\<not> south c \<and> i = 2 * y + 2 \<and> j = 2 * x + 1) \<or>
                    (\<not> west c \<and> i = 2 * y + 1 \<and> j = 2 * x) \<or>
                    (\<not> east c \<and> i = 2 * y + 1 \<and> j = 2 * x + 2)
                 then 0 else g ! i ! j)"
    if ij: "i < nat ?H" "j < nat ?W" for i j
  proof -
    have e1: "g1 ! i ! j = (if i = 2 * y + 1 \<and> j = 2 * x + 1 then 0 else g ! i ! j)"
      unfolding g1_def using nth_put[OF r by'(1) bx(1) ij, of 0] by (auto simp: mult.commute)
    have e2: "g2 ! i ! j = (if \<not> north c \<and> i = 2 * y \<and> j = 2 * x + 1 then 0 else g1 ! i ! j)"
      unfolding g2_def using nth_put[OF r1 by'(2) bx(1) ij, of 0] by (auto simp: mult.commute)
    have e3: "g3 ! i ! j = (if \<not> south c \<and> i = 2 * y + 2 \<and> j = 2 * x + 1 then 0 else g2 ! i ! j)"
      unfolding g3_def using nth_put[OF r2 by'(3) bx(1) ij, of 0] by (auto simp: mult.commute)
    have e4: "g4 ! i ! j = (if \<not> west c \<and> i = 2 * y + 1 \<and> j = 2 * x then 0 else g3 ! i ! j)"
      unfolding g4_def using nth_put[OF r3 by'(1) bx(2) ij, of 0] by (auto simp: mult.commute)
    have e5: "g5 ! i ! j = (if \<not> east c \<and> i = 2 * y + 1 \<and> j = 2 * x + 2 then 0 else g4 ! i ! j)"
      unfolding g5_def using nth_put[OF r4 by'(1) bx(3) ij, of 0] by (auto simp: mult.commute)
    show ?thesis unfolding e5 e4 e3 e2 e1 by simp
  qed
  with run r5 show ?thesis by blast
qed

lemma gridInv_step:
  assumes r: "rect w h m" and B: "bw \<longrightarrow> outerWalls m"
    and I: "gridInv bw w h y x g" and x: "int x < w" and y: "int y < h"
  shows "\<exists>g'. gridCell m y x g = Inr g' \<and> gridInv bw w h y (Suc x) g'"
proof -
  from I have rg: "rect (2 * w + 1) (2 * h + 1) g"
    and bd: "\<And>i j. bw \<Longrightarrow> i < nat (2 * h + 1) \<Longrightarrow> j < nat (2 * w + 1) \<Longrightarrow>
             (i = 0 \<or> i = nat (2 * h) \<or> j = 0 \<or> j = nat (2 * w)) \<Longrightarrow> g ! i ! j = 1"
    and z: "\<And>y' x'. int x' < w \<Longrightarrow> (y' < y \<or> (y' = y \<and> x' < x)) \<Longrightarrow>
             g ! (2 * y' + 1) ! (2 * x' + 1) = 0"
    by (auto simp: gridInv_def)
  have "inGrid w h (int x, int y)" using x y by (simp add: inGrid_def)
  then obtain c where c: "cellAt m (int x) (int y) = Some c"
    using cellAt_rect[OF r, of "int x" "int y"] by auto
  have out: "wall d c" if "bw" "\<not> inGrid w h (neighbour d (int x, int y))" for d
  proof -
    have "cellOf m (neighbour d (int x, int y)) = None"
      using cellOf_rect[OF r, of "neighbour d (int x, int y)"] that(2) by simp
    with B c that(1) show ?thesis unfolding outerWalls_def by (auto simp: cellOf_def)
  qed
  have n0: "north c" if "bw" "y = 0" using out[of North] that by (simp add: inGrid_def)
  have s0: "south c" if "bw" "int y + 1 = h" using out[of South] that by (simp add: inGrid_def)
  have w0: "west c" if "bw" "x = 0" using out[of West] that by (simp add: inGrid_def)
  have e0: "east c" if "bw" "int x + 1 = w" using out[of East] that by (simp add: inGrid_def)
  from gridCell_effect[OF rg c x y] obtain g' where
    run: "gridCell m y x g = Inr g'" and rg': "rect (2 * w + 1) (2 * h + 1) g'"
    and eff: "\<And>i j. i < nat (2 * h + 1) \<Longrightarrow> j < nat (2 * w + 1) \<Longrightarrow>
              g' ! i ! j =
                (if (i = 2 * y + 1 \<and> j = 2 * x + 1) \<or>
                    (\<not> north c \<and> i = 2 * y \<and> j = 2 * x + 1) \<or>
                    (\<not> south c \<and> i = 2 * y + 2 \<and> j = 2 * x + 1) \<or>
                    (\<not> west c \<and> i = 2 * y + 1 \<and> j = 2 * x) \<or>
                    (\<not> east c \<and> i = 2 * y + 1 \<and> j = 2 * x + 2)
                 then 0 else g ! i ! j)"
    by blast
  have bd': "g' ! i ! j = 1"
    if bw: "bw" and ij: "i < nat (2 * h + 1)" "j < nat (2 * w + 1)"
      and b: "i = 0 \<or> i = nat (2 * h) \<or> j = 0 \<or> j = nat (2 * w)" for i j
  proof -
    have yn: "0 < y" if "\<not> north c" using n0[OF bw] that by auto
    have ys: "int y + 1 < h" if "\<not> south c" using s0[OF bw] y that by fastforce
    have xw: "0 < x" if "\<not> west c" using w0[OF bw] that by auto
    have xe: "int x + 1 < w" if "\<not> east c" using e0[OF bw] x that by fastforce
    have k1: "\<not> (i = 2 * y + 1 \<and> j = 2 * x + 1)" using b x y by arith
    have k2: "\<not> (\<not> north c \<and> i = 2 * y \<and> j = 2 * x + 1)" using b x y yn by arith
    have k3: "\<not> (\<not> south c \<and> i = 2 * y + 2 \<and> j = 2 * x + 1)" using b x y ys by arith
    have k4: "\<not> (\<not> west c \<and> i = 2 * y + 1 \<and> j = 2 * x)" using b x y xw by arith
    have k5: "\<not> (\<not> east c \<and> i = 2 * y + 1 \<and> j = 2 * x + 2)" using b x y xe by arith
    have "g' ! i ! j = g ! i ! j" using eff[OF ij] k1 k2 k3 k4 k5 by presburger
    with bd[OF bw ij b] show ?thesis by simp
  qed
  have z': "g' ! (2 * y' + 1) ! (2 * x' + 1) = 0"
    if x': "int x' < w" and p: "y' < y \<or> (y' = y \<and> x' < Suc x)" for y' x'
  proof -
    have ij: "2 * y' + 1 < nat (2 * h + 1)" "2 * x' + 1 < nat (2 * w + 1)"
      using x' p y by auto
    show ?thesis
    proof (cases "y' = y \<and> x' = x")
      case True
      then show ?thesis using eff[OF ij] by simp
    next
      case False
      with p have "y' < y \<or> (y' = y \<and> x' < x)" by auto
      from z[OF x' this] show ?thesis using eff[OF ij] by simp
    qed
  qed
  have "gridInv bw w h y (Suc x) g'"
    unfolding gridInv_def using rg' bd' z' by blast
  with run show ?thesis by blast
qed

lemma gridInv_row:
  assumes r: "rect w h m" and B: "bw \<longrightarrow> outerWalls m"
    and I: "gridInv bw w h y 0 g" and y: "int y < h" and w: "0 \<le> w"
  shows "\<exists>g'. forEach [0..<nat w] (\<lambda>x. gridCell m y x) g = Inr g' \<and> gridInv bw w h (Suc y) 0 g'"
proof -
  have "\<exists>g'. forEach [0..<nat w] (\<lambda>x. gridCell m y x) g = Inr g' \<and> gridInv bw w h y (nat w) g'"
  proof (rule forEach_upt[where I = "\<lambda>x g. gridInv bw w h y x g"])
    fix i s assume "i < nat w" "gridInv bw w h y i s"
    then show "\<exists>s'. gridCell m y i s = Inr s' \<and> gridInv bw w h y (Suc i) s'"
      using gridInv_step[OF r B _ _ y, of i s] by auto
  qed (use I in auto)
  then obtain g' where g': "forEach [0..<nat w] (\<lambda>x. gridCell m y x) g = Inr g'"
    "gridInv bw w h y (nat w) g'" by blast
  have "g' ! (2 * y' + 1) ! (2 * x' + 1) = 0"
    if "int x' < w" "y' < Suc y \<or> (y' = Suc y \<and> x' < 0)" for y' x'
  proof -
    from that w have "y' < y \<or> (y' = y \<and> x' < nat w)" by auto
    with g'(2) that(1) show ?thesis unfolding gridInv_def by blast
  qed
  with g'(2) have "gridInv bw w h (Suc y) 0 g'"
    unfolding gridInv_def by blast
  with g'(1) show ?thesis by blast
qed

lemma mazeToGrid_ok:
  assumes w: "1 \<le> w" and h: "1 \<le> h" and r: "rect w h m" and B: "bw \<longrightarrow> outerWalls m"
  shows "\<exists>g. mazeToGrid m = Inr g \<and> gridInv bw w h (nat h) 0 g"
proof -
  from r h obtain row0 rest where m: "m = row0 # rest"
    by (cases m) (auto simp: rect_def)
  from r have lm: "length m = nat h" by (simp add: rect_def)
  from r m have l0: "length row0 = nat w" by (simp add: rect_def)
  let ?g0 = "replicate (nat h * 2 + 1) (replicate (nat w * 2 + 1) (1::int))"
  have e: "nat (2 * h + 1) = nat h * 2 + 1" "nat (2 * w + 1) = nat w * 2 + 1"
    using w h by auto
  have g0: "?g0 = replicate (nat (2 * h + 1)) (replicate (nat (2 * w + 1)) 1)"
    by (simp only: e)
  have I0: "gridInv bw w h 0 0 ?g0"
    unfolding gridInv_def g0 by (simp add: rect_def list_all_iff del: replicate_Suc)
  have "\<exists>g. forEach [0..<nat h] (\<lambda>y. forEach [0..<nat w] (\<lambda>x. gridCell m y x)) ?g0 = Inr g \<and>
            gridInv bw w h (nat h) 0 g"
  proof (rule forEach_upt[where I = "\<lambda>y g. gridInv bw w h y 0 g"])
    fix i s assume "i < nat h" "gridInv bw w h i 0 s"
    then show "\<exists>s'. forEach [0..<nat w] (gridCell m i) s = Inr s' \<and> gridInv bw w h (Suc i) 0 s'"
      using gridInv_row[OF r B, of i s] w by auto
  qed (use I0 in auto)
  moreover have "mazeToGrid m =
      forEach [0..<nat h] (\<lambda>y. forEach [0..<nat w] (\<lambda>x. gridCell m y x)) ?g0"
    using lm l0 unfolding mazeToGrid_def m by (simp add: Let_def)
  ultimately show ?thesis by simp
qed

lemma gridAt_rect:
  assumes "rect W H g" "0 \<le> gx" "gx < W" "0 \<le> gy" "gy < H"
  shows "gridAt g gx gy = Some (g ! nat gy ! nat gx)"
proof -
  from assms have "length g = nat H" "length (g ! nat gy) = nat W"
    by (auto simp: rect_def list_all_length)
  with assms show ?thesis by (auto simp: gridAt_def elemAt_def)
qed

text \<open>The grid of a generated maze: size, wall border, open cell interiors.\<close>

lemma generated_grid:
  assumes w: "1 \<le> w" and h: "1 \<le> h" and R: "randomOK rnd"
  shows "\<exists>m g. generateMaze rnd w h = Some (Inr m) \<and> mazeToGrid m = Inr g \<and>
           rect (2 * w + 1) (2 * h + 1) g \<and>
           (\<forall>gx gy. 0 \<le> gx \<and> gx \<le> 2 * w \<and> 0 \<le> gy \<and> gy \<le> 2 * h \<and>
                    (gx = 0 \<or> gx = 2 * w \<or> gy = 0 \<or> gy = 2 * h) \<longrightarrow> gridAt g gx gy = Some 1) \<and>
           (\<forall>x y. 0 \<le> x \<and> x < w \<and> 0 \<le> y \<and> y < h \<longrightarrow> gridAt g (2 * x + 1) (2 * y + 1) = Some 0)"
proof -
  from generateMaze_Inv[OF w h R] obtain m where
    m: "generateMaze rnd w h = Some (Inr m)" and I: "Inv w h m" by blast
  from I have r: "rect w h m" and B: "outerWalls m" by (simp_all add: Inv_def)
  from mazeToGrid_ok[OF w h r, of True] B obtain g where g: "mazeToGrid m = Inr g"
    and G: "gridInv True w h (nat h) 0 g" by blast
  from G have rg: "rect (2 * w + 1) (2 * h + 1) g"
    and bd: "\<And>i j. i < nat (2 * h + 1) \<Longrightarrow> j < nat (2 * w + 1) \<Longrightarrow>
             (i = 0 \<or> i = nat (2 * h) \<or> j = 0 \<or> j = nat (2 * w)) \<Longrightarrow> g ! i ! j = 1"
    and z: "\<And>y x. int x < w \<Longrightarrow> y < nat h \<Longrightarrow> g ! (2 * y + 1) ! (2 * x + 1) = 0"
    by (auto simp: gridInv_def)
  have "gridAt g gx gy = Some 1"
    if "0 \<le> gx \<and> gx \<le> 2 * w \<and> 0 \<le> gy \<and> gy \<le> 2 * h \<and>
        (gx = 0 \<or> gx = 2 * w \<or> gy = 0 \<or> gy = 2 * h)" for gx gy
  proof -
    have "g ! nat gy ! nat gx = 1" using that by (intro bd) auto
    then show ?thesis using gridAt_rect[OF rg, of gx gy] that by simp
  qed
  moreover have "gridAt g (2 * x + 1) (2 * y + 1) = Some 0"
    if "0 \<le> x \<and> x < w \<and> 0 \<le> y \<and> y < h" for x y
  proof -
    have "g ! (2 * nat y + 1) ! (2 * nat x + 1) = 0" using that by (intro z) auto
    moreover have "nat (2 * y + 1) = 2 * nat y + 1" "nat (2 * x + 1) = 2 * nat x + 1"
      using that by auto
    ultimately show ?thesis using gridAt_rect[OF rg, of "2 * x + 1" "2 * y + 1"] that by simp
  qed
  ultimately show ?thesis using m g rg by blast
qed

lemma outsideMap_nonempty: "g \<noteq> [] \<Longrightarrow> outsideMap g x y = Inr (\<not> inMap g (x, y))"
  by (cases g) (auto simp: outsideMap_def inMap_def gridWidth_def gridHeight_def)

lemma outsideMap_empty: "outsideMap [] x y = (if x < 0 then Inr True else Inl TypeError)"
  by (simp add: outsideMap_def)

text \<open>One iteration of the loop, by what the cell stepped into is.\<close>

lemma ddaLoop_leave:
  assumes "mapX' = (if jsLess sX sY then mapX + stepX else mapX)"
    and "mapY' = (if jsLess sX sY then mapY else mapY + stepY)"
    and "outsideMap (grid g) mapX' mapY' = Inr True"
  shows "ddaLoop g dX dY stepX stepY sX sY mapX mapY ss es path
         = Some (Inr (Return noHit, path @ [(mapX', mapY')]))"
  using assms by (subst ddaLoop.simps) (simp add: Let_def noHit_def)

lemma ddaLoop_throw:
  assumes "mapX' = (if jsLess sX sY then mapX + stepX else mapX)"
    and "mapY' = (if jsLess sX sY then mapY else mapY + stepY)"
    and "outsideMap (grid g) mapX' mapY' = Inl e"
  shows "ddaLoop g dX dY stepX stepY sX sY mapX mapY ss es path = Some (Inl e)"
  using assms by (subst ddaLoop.simps) (simp add: Let_def)

lemma ddaLoop_hit:
  assumes "mapX' = (if jsLess sX sY then mapX + stepX else mapX)"
    and "mapY' = (if jsLess sX sY then mapY else mapY + stepY)"
    and "outsideMap (grid g) mapX' mapY' = Inr False"
    and "gridAt (grid g) mapX' mapY' = Some 1"
  shows "ddaLoop g dX dY stepX stepY sX sY mapX mapY ss es path
         = Some (Inr (Hit mapX' mapY' (if jsLess sX sY then 0 else 1) ss es, path @ [(mapX', mapY')]))"
  using assms by (subst ddaLoop.simps) (simp add: Let_def)

lemma ddaLoop_continue:
  assumes "mapX' = (if jsLess sX sY then mapX + stepX else mapX)"
    and "mapY' = (if jsLess sX sY then mapY else mapY + stepY)"
    and "outsideMap (grid g) mapX' mapY' = Inr False"
    and "gridAt (grid g) mapX' mapY' \<noteq> Some 1"
  shows "ddaLoop g dX dY stepX stepY sX sY mapX mapY ss es path
         = ddaLoop g dX dY stepX stepY
             (if jsLess sX sY then jsAdd sX dX else sX) (if jsLess sX sY then sY else jsAdd sY dY) mapX' mapY'
             (ss \<or> gridAt (grid g) mapX' mapY' = Some 0 \<and> mapX' = startGridX \<and> mapY' = startGridY)
             (es \<or> gridAt (grid g) mapX' mapY' = Some 0 \<and> mapX' = exitX g \<and> mapY' = exitY g)
             (path @ [(mapX', mapY')])"
  using assms by (subst ddaLoop.simps) (simp add: Let_def)

lemma walked_single_leave:
  assumes "c = (mapX + stepX, mapY) \<or> c = (mapX, mapY + stepY)" "\<not> inMap (grid g) c"
  shows "walked g stepX stepY mapX mapY ss es (Return noHit) [c]"
  using assms by (auto simp: walked_def nextTo_def)

lemma walked_single_hit:
  assumes sx: "stepX = 1 \<or> stepX = - 1" and sy: "stepY = 1 \<or> stepY = - 1"
    and c: "mapX' = (if b then mapX + stepX else mapX)" "mapY' = (if b then mapY else mapY + stepY)"
    and i: "inMap (grid g) (mapX', mapY')" and v: "gridAt (grid g) mapX' mapY' = Some 1"
  shows "walked g stepX stepY mapX mapY ss es
           (Hit mapX' mapY' (if b then 0 else 1) ss es) [(mapX', mapY')]"
proof -
  have "\<not> openAt g a [(mapX', mapY')]" for a
    using v by (auto simp: openAt_def)
  with sx sy c i v show ?thesis by (auto simp: walked_def nextTo_def)
qed

lemma walked_cons:
  assumes sx: "stepX = 1 \<or> stepX = - 1" and sy: "stepY = 1 \<or> stepY = - 1"
    and c: "mapX' = (if b then mapX + stepX else mapX)" "mapY' = (if b then mapY else mapY + stepY)"
    and i: "inMap (grid g) (mapX', mapY')" and v: "gridAt (grid g) mapX' mapY' \<noteq> Some 1"
    and w: "walked g stepX stepY mapX' mapY'
              (ss \<or> gridAt (grid g) mapX' mapY' = Some 0 \<and> mapX' = startGridX \<and> mapY' = startGridY)
              (es \<or> gridAt (grid g) mapX' mapY' = Some 0 \<and> mapX' = exitX g \<and> mapY' = exitY g)
              e p"
  shows "walked g stepX stepY mapX mapY ss es e ((mapX', mapY') # p)"
proof -
  from w have ne: "p \<noteq> []" by (simp add: walked_def)
  have hd: "successively (nextTo stepX stepY) ((mapX, mapY) # (mapX', mapY') # p)"
    using c w by (auto simp: walked_def nextTo_def)
  have all: "list_all (\<lambda>c. inMap (grid g) c \<and> gridAt (grid g) (fst c) (snd c) \<noteq> Some 1)
               (butlast ((mapX', mapY') # p))"
    using w ne i v by (simp add: walked_def)
  have o: "(a \<in> set ((mapX', mapY') # p) \<and> gridAt (grid g) (fst a) (snd a) = Some 0)
           = (gridAt (grid g) mapX' mapY' = Some 0 \<and> mapX' = fst a \<and> mapY' = snd a
              \<or> (a \<in> set p \<and> gridAt (grid g) (fst a) (snd a) = Some 0))" for a
    by (cases a) auto
  show ?thesis
  proof (cases e)
    case (Return r)
    with w ne hd all show ?thesis by (simp add: walked_def)
  next
    case (Hit mx my sd ss' es')
    from w Hit have h: "(mx, my) = last p" "inMap (grid g) (last p)" "gridAt (grid g) mx my = Some 1"
      "sd = 0 \<or> sd = 1"
      "(if sd = 0 then 1 else 0) \<le> stepX * (mx - mapX')"
      "(if sd = 0 then 0 else 1) \<le> stepY * (my - mapY')"
      and f1: "ss' = ((ss \<or> gridAt (grid g) mapX' mapY' = Some 0 \<and> mapX' = startGridX \<and> mapY' = startGridY)
                 \<or> openAt g (startGridX, startGridY) p)"
      and f2: "es' = ((es \<or> gridAt (grid g) mapX' mapY' = Some 0 \<and> mapX' = exitX g \<and> mapY' = exitY g)
                 \<or> openAt g (exitX g, exitY g) p)"
      by (simp_all add: walked_def)
    have dx: "(if sd = 0 then 1 else 0) \<le> stepX * (mx - mapX)"
      using h(5) sx c(1) by (auto split: if_splits)
    have dy: "(if sd = 0 then 0 else 1) \<le> stepY * (my - mapY)"
      using h(6) sy c(2) by (auto split: if_splits)
    have g1: "ss' = (ss \<or> openAt g (startGridX, startGridY) ((mapX', mapY') # p))"
      unfolding f1 openAt_def o[of "(startGridX, startGridY)"] by auto
    have g2: "es' = (es \<or> openAt g (exitX g, exitY g) ((mapX', mapY') # p))"
      unfolding f2 openAt_def o[of "(exitX g, exitY g)"] by auto
    show ?thesis
      unfolding walked_def Hit using ne hd all h(1-4) dx dy g1 g2 by simp
  qed
qed

lemma stepsLeft_pos:
  assumes "g \<noteq> []" "stepX = 1 \<or> stepX = - 1" "stepY = 1 \<or> stepY = - 1"
  shows "1 \<le> stepsLeft g stepX stepY mapX mapY"
proof -
  have "0 \<le> gridWidth g" "1 \<le> gridHeight g"
    using assms(1) by (cases g; simp add: gridWidth_def gridHeight_def)+
  then show ?thesis
    using assms(2,3) by (auto simp: stepsLeft_def inMap_def)
qed

lemma stepsLeft_next:
  assumes sx: "stepX = 1 \<or> stepX = - 1" and sy: "stepY = 1 \<or> stepY = - 1"
    and c: "mapX' = (if b then mapX + stepX else mapX)" "mapY' = (if b then mapY else mapY + stepY)"
    and i: "inMap g (mapX', mapY')"
  shows "stepsLeft g stepX stepY mapX' mapY' + 1 \<le> stepsLeft g stepX stepY mapX mapY"
  using assms by (auto simp: stepsLeft_def inMap_def split: if_splits)

lemma ddaLoop_walk:
  assumes ne: "grid g \<noteq> []"
    and sx: "stepX = 1 \<or> stepX = - 1" and sy: "stepY = 1 \<or> stepY = - 1"
  shows "stepsLeft (grid g) stepX stepY mapX mapY \<le> int n \<Longrightarrow>
         \<exists>e p. ddaLoop g dX dY stepX stepY sX sY mapX mapY ss es path = Some (Inr (e, path @ p)) \<and>
               walked g stepX stepY mapX mapY ss es e p \<and>
               int (length p) \<le> stepsLeft (grid g) stepX stepY mapX mapY"
proof (induction n arbitrary: sX sY mapX mapY ss es path)
  case 0
  with stepsLeft_pos[OF ne sx sy, of mapX mapY] show ?case by simp
next
  case (Suc n)
  define b where "b = jsLess sX sY"
  define mapX' where "mapX' = (if b then mapX + stepX else mapX)"
  define mapY' where "mapY' = (if b then mapY else mapY + stepY)"
  note c = mapX'_def mapY'_def
  note c' = c[unfolded b_def]
  note pos = stepsLeft_pos[OF ne sx sy, of mapX mapY]
  have hd: "(mapX', mapY') = (mapX + stepX, mapY) \<or> (mapX', mapY') = (mapX, mapY + stepY)"
    unfolding c by auto
  show ?case
  proof (cases "inMap (grid g) (mapX', mapY')")
    case False
    then have out: "outsideMap (grid g) mapX' mapY' = Inr True"
      by (simp add: outsideMap_nonempty[OF ne])
    have "walked g stepX stepY mapX mapY ss es (Return noHit) [(mapX', mapY')]"
      using hd False by (rule walked_single_leave)
    with ddaLoop_leave[OF c' out] pos show ?thesis by force
  next
    case True
    then have ins: "outsideMap (grid g) mapX' mapY' = Inr False"
      by (simp add: outsideMap_nonempty[OF ne])
    show ?thesis
    proof (cases "gridAt (grid g) mapX' mapY' = Some 1")
      case v: True
      have "walked g stepX stepY mapX mapY ss es
              (Hit mapX' mapY' (if b then 0 else 1) ss es) [(mapX', mapY')]"
        using sx sy c True v by (rule walked_single_hit)
      with ddaLoop_hit[OF c' ins v] pos show ?thesis unfolding b_def by force
    next
      case v: False
      let ?ss = "ss \<or> gridAt (grid g) mapX' mapY' = Some 0 \<and> mapX' = startGridX \<and> mapY' = startGridY"
      let ?es = "es \<or> gridAt (grid g) mapX' mapY' = Some 0 \<and> mapX' = exitX g \<and> mapY' = exitY g"
      note nxt = stepsLeft_next[OF sx sy c True]
      with Suc.prems have le: "stepsLeft (grid g) stepX stepY mapX' mapY' \<le> int n" by simp
      from Suc.IH[OF le, of "if jsLess sX sY then jsAdd sX dX else sX" "if jsLess sX sY then sY else jsAdd sY dY"
          ?ss ?es "path @ [(mapX', mapY')]"]
      obtain e p where
        run: "ddaLoop g dX dY stepX stepY (if jsLess sX sY then jsAdd sX dX else sX)
                (if jsLess sX sY then sY else jsAdd sY dY) mapX' mapY' ?ss ?es (path @ [(mapX', mapY')])
              = Some (Inr (e, (path @ [(mapX', mapY')]) @ p))"
        and w: "walked g stepX stepY mapX' mapY' ?ss ?es e p"
        and len: "int (length p) \<le> stepsLeft (grid g) stepX stepY mapX' mapY'"
        by blast
      have "walked g stepX stepY mapX mapY ss es e ((mapX', mapY') # p)"
        using sx sy c True v w by (rule walked_cons)
      moreover have "int (length ((mapX', mapY') # p)) \<le> stepsLeft (grid g) stepX stepY mapX mapY"
        using len nxt by simp
      moreover have "ddaLoop g dX dY stepX stepY sX sY mapX mapY ss es path
                     = Some (Inr (e, path @ (mapX', mapY') # p))"
        using ddaLoop_continue[OF c' ins v] run by simp
      ultimately show ?thesis by blast
    qed
  qed
qed

lemma perp_nonneg:
  fixes pos dir :: real and mx step :: int
  assumes s: "step = (if dir < 0 then - 1 else 1)" and m: "1 \<le> step * (mx - \<lfloor>pos\<rfloor>)"
  shows "0 \<le> (of_int mx - pos + (1 - of_int step) / 2) / (if dir = 0 then 1 / 10 ^ 6 else dir)"
proof (cases "dir < 0")
  case True
  with s m have "mx \<le> \<lfloor>pos\<rfloor> - 1" by simp
  then have "real_of_int mx \<le> real_of_int \<lfloor>pos\<rfloor> - 1" by linarith
  moreover have "real_of_int \<lfloor>pos\<rfloor> \<le> pos" by (rule of_int_floor_le)
  moreover have "(1 - real_of_int step) / 2 = 1" using s True by simp
  ultimately have "of_int mx - pos + (1 - of_int step) / 2 \<le> 0" by linarith
  then show ?thesis using True by (simp add: divide_nonpos_neg)
next
  case False
  with s m have "\<lfloor>pos\<rfloor> + 1 \<le> mx" by simp
  then have "real_of_int \<lfloor>pos\<rfloor> + 1 \<le> real_of_int mx" by linarith
  moreover have "pos < real_of_int \<lfloor>pos\<rfloor> + 1" by linarith
  moreover have "(1 - real_of_int step) / 2 = 0" using s False by simp
  ultimately have n: "0 \<le> of_int mx - pos + (1 - of_int step) / 2" by linarith
  have "0 < (if dir = 0 then 1 / 10 ^ 6 else dir)" using False by auto
  with n show ?thesis by (rule divide_nonneg_pos)
qed

text \<open>\<open>stepX\<close> and \<open>stepY\<close> of lines 322-335.\<close>

lemma overflowAt_pos: "0 < overflowAt"
proof -
  have "(2::real) ^ 970 < 2 ^ 1024" by (rule power_strict_increasing) simp_all
  then show ?thesis by (simp add: overflowAt_def)
qed

lemma fl_nonneg: "0 \<le> x \<Longrightarrow> fl x = PosInf \<or> fl x = Finite x"
  using overflowAt_pos by (auto simp: fl_def)

lemma castRayTrace_total:
  assumes ne: "grid g \<noteq> []"
  shows "\<exists>r path. castRayTrace g posX posY rayAngle = Some (Inr (r, path)) \<and>
                  castSpec g posX posY rayAngle r path"
proof -
  define stepX where "stepX = stepOf (cos rayAngle)"
  define stepY where "stepY = stepOf (sin rayAngle)"
  have sx: "stepX = 1 \<or> stepX = - 1" and sy: "stepY = 1 \<or> stepY = - 1"
    by (auto simp: stepX_def stepY_def stepOf_def)
  define dX where "dX = (if cos rayAngle = 0 then Finite (10 ^ 30) else fl \<bar>1 / cos rayAngle\<bar>)"
  define dY where "dY = (if sin rayAngle = 0 then Finite (10 ^ 30) else fl \<bar>1 / sin rayAngle\<bar>)"
  define sX where "sX = (if cos rayAngle < 0 then jsMul (Finite (posX - of_int \<lfloor>posX\<rfloor>)) dX
                         else jsMul (Finite (of_int \<lfloor>posX\<rfloor> + 1 - posX)) dX)"
  define sY where "sY = (if sin rayAngle < 0 then jsMul (Finite (posY - of_int \<lfloor>posY\<rfloor>)) dY
                         else jsMul (Finite (of_int \<lfloor>posY\<rfloor> + 1 - posY)) dY)"
  define ss where "ss = (\<lfloor>posX\<rfloor> = startGridX \<and> \<lfloor>posY\<rfloor> = startGridY)"
  define es where "es = (\<lfloor>posX\<rfloor> = exitX g \<and> \<lfloor>posY\<rfloor> = exitY g)"
  obtain n where n: "stepsLeft (grid g) stepX stepY \<lfloor>posX\<rfloor> \<lfloor>posY\<rfloor> \<le> int n"
    by (metis nat_le_iff order_refl)
  from ddaLoop_walk[OF ne sx sy n, of dX dY sX sY ss es "[]"]
  obtain e p where
    run: "ddaLoop g dX dY stepX stepY sX sY \<lfloor>posX\<rfloor> \<lfloor>posY\<rfloor> ss es [] = Some (Inr (e, p))"
    and w: "walked g stepX stepY \<lfloor>posX\<rfloor> \<lfloor>posY\<rfloor> ss es e p"
    and len: "int (length p) \<le> stepsLeft (grid g) stepX stepY \<lfloor>posX\<rfloor> \<lfloor>posY\<rfloor>"
    by auto
  have unf: "castRayTrace g posX posY rayAngle =
      (case ddaLoop g dX dY stepX stepY sX sY \<lfloor>posX\<rfloor> \<lfloor>posY\<rfloor> ss es [] of
         None \<Rightarrow> None
       | Some (Inl e) \<Rightarrow> Some (Inl e)
       | Some (Inr (Return r, path)) \<Rightarrow> Some (Inr (r, path))
       | Some (Inr (Hit mx my sd ss es, path)) \<Rightarrow>
           Some (Inr (\<lparr>distR = fl
                    (if sd = 0
                     then (of_int mx - posX + (1 - of_int stepX) / 2)
                          / (if cos rayAngle = 0 then 1 / 10 ^ 6 else cos rayAngle)
                     else (of_int my - posY + (1 - of_int stepY) / 2)
                          / (if sin rayAngle = 0 then 1 / 10 ^ 6 else sin rayAngle)),
                   side = sd, startSeen = ss, exitSeen = es\<rparr>, path)))"
    unfolding castRayTrace_def Let_def stepX_def stepY_def stepOf_def dX_def dY_def sX_def sY_def
      ss_def es_def by simp
  from w have base: "p \<noteq> []"
    "successively (nextTo stepX stepY) ((\<lfloor>posX\<rfloor>, \<lfloor>posY\<rfloor>) # p)"
    "list_all (\<lambda>c. inMap (grid g) c \<and> gridAt (grid g) (fst c) (snd c) \<noteq> Some 1) (butlast p)"
    by (simp_all add: walked_def)
  show ?thesis
  proof (cases e)
    case (Return r)
    with w have "r = noHit" "\<not> inMap (grid g) (last p)" by (simp_all add: walked_def)
    moreover have "castRayTrace g posX posY rayAngle = Some (Inr (r, p))"
      unfolding unf run Return by simp
    ultimately show ?thesis
      using base len unfolding castSpec_def stepX_def stepY_def by auto
  next
    case (Hit mx my sd ss' es')
    from w Hit have h: "(mx, my) = last p" "inMap (grid g) (last p)" "gridAt (grid g) mx my = Some 1"
      "sd = 0 \<or> sd = 1"
      "(if sd = 0 then 1 else 0) \<le> stepX * (mx - \<lfloor>posX\<rfloor>)"
      "(if sd = 0 then 0 else 1) \<le> stepY * (my - \<lfloor>posY\<rfloor>)"
      "ss' = (ss \<or> openAt g (startGridX, startGridY) p)"
      "es' = (es \<or> openAt g (exitX g, exitY g) p)"
      by (simp_all add: walked_def)
    define d where "d = (if sd = 0
                     then (of_int mx - posX + (1 - of_int stepX) / 2)
                          / (if cos rayAngle = 0 then 1 / 10 ^ 6 else cos rayAngle)
                     else (of_int my - posY + (1 - of_int stepY) / 2)
                          / (if sin rayAngle = 0 then 1 / 10 ^ 6 else sin rayAngle))"
    have d0: "0 \<le> d"
    proof (cases "sd = 0")
      case True
      with h(5) have "1 \<le> stepX * (mx - \<lfloor>posX\<rfloor>)" by simp
      from perp_nonneg[OF _ this, of "cos rayAngle"] True show ?thesis
        by (simp add: d_def stepX_def stepOf_def)
    next
      case False
      with h(6) have "1 \<le> stepY * (my - \<lfloor>posY\<rfloor>)" by simp
      from perp_nonneg[OF _ this, of "sin rayAngle"] False show ?thesis
        by (simp add: d_def stepY_def stepOf_def)
    qed
    from fl_nonneg[OF d0] have d1: "fl d = PosInf \<or> (\<exists>d'. fl d = Finite d' \<and> 0 \<le> d')"
      using d0 by auto
    let ?r = "\<lparr>distR = fl d, side = sd, startSeen = ss', exitSeen = es'\<rparr>"
    have "castRayTrace g posX posY rayAngle = Some (Inr (?r, p))"
      unfolding unf run Hit d_def by simp
    moreover have "castSpec g posX posY rayAngle ?r p"
      unfolding castSpec_def
      using base len h(2,4) h(3)[unfolded] h(1)[symmetric] d1 h(7,8)
      by (simp add: stepX_def stepY_def ss_def es_def)
    ultimately show ?thesis by blast
  qed
qed

lemma ddaLoop_empty:
  assumes "grid g = []"
  shows "ddaLoop g dX dY stepX stepY sX sY mapX mapY ss es path = Some (Inl TypeError) \<or>
         (\<exists>c. ddaLoop g dX dY stepX stepY sX sY mapX mapY ss es path
               = Some (Inr (Return noHit, path @ [c])))"
proof -
  define mapX' where "mapX' = (if jsLess sX sY then mapX + stepX else mapX)"
  define mapY' where "mapY' = (if jsLess sX sY then mapY else mapY + stepY)"
  show ?thesis
  proof (cases "mapX' < 0")
    case True
    then have "outsideMap (grid g) mapX' mapY' = Inr True"
      by (simp add: assms outsideMap_empty)
    from ddaLoop_leave[OF mapX'_def mapY'_def this] show ?thesis by blast
  next
    case False
    then have "outsideMap (grid g) mapX' mapY' = Inl TypeError"
      by (simp add: assms outsideMap_empty)
    from ddaLoop_throw[OF mapX'_def mapY'_def this] show ?thesis by blast
  qed
qed

lemma castRayTrace_empty_total:
  assumes e: "grid g = []"
  shows "castRayTrace g posX posY rayAngle = Some (Inl TypeError) \<or>
         (\<exists>c. castRayTrace g posX posY rayAngle = Some (Inr (noHit, [c])))"
proof -
  define stepX :: int where "stepX = (if cos rayAngle < 0 then - 1 else 1)"
  define stepY :: int where "stepY = (if sin rayAngle < 0 then - 1 else 1)"
  define dX where "dX = (if cos rayAngle = 0 then Finite (10 ^ 30) else fl \<bar>1 / cos rayAngle\<bar>)"
  define dY where "dY = (if sin rayAngle = 0 then Finite (10 ^ 30) else fl \<bar>1 / sin rayAngle\<bar>)"
  define sX where "sX = (if cos rayAngle < 0 then jsMul (Finite (posX - of_int \<lfloor>posX\<rfloor>)) dX
                         else jsMul (Finite (of_int \<lfloor>posX\<rfloor> + 1 - posX)) dX)"
  define sY where "sY = (if sin rayAngle < 0 then jsMul (Finite (posY - of_int \<lfloor>posY\<rfloor>)) dY
                         else jsMul (Finite (of_int \<lfloor>posY\<rfloor> + 1 - posY)) dY)"
  define ss where "ss = (\<lfloor>posX\<rfloor> = startGridX \<and> \<lfloor>posY\<rfloor> = startGridY)"
  define es where "es = (\<lfloor>posX\<rfloor> = exitX g \<and> \<lfloor>posY\<rfloor> = exitY g)"
  have unf: "castRayTrace g posX posY rayAngle =
      (case ddaLoop g dX dY stepX stepY sX sY \<lfloor>posX\<rfloor> \<lfloor>posY\<rfloor> ss es [] of
         None \<Rightarrow> None
       | Some (Inl e) \<Rightarrow> Some (Inl e)
       | Some (Inr (Return r, path)) \<Rightarrow> Some (Inr (r, path))
       | Some (Inr (Hit mx my sd ss es, path)) \<Rightarrow>
           Some (Inr (\<lparr>distR = fl
                    (if sd = 0
                     then (of_int mx - posX + (1 - of_int stepX) / 2)
                          / (if cos rayAngle = 0 then 1 / 10 ^ 6 else cos rayAngle)
                     else (of_int my - posY + (1 - of_int stepY) / 2)
                          / (if sin rayAngle = 0 then 1 / 10 ^ 6 else sin rayAngle)),
                   side = sd, startSeen = ss, exitSeen = es\<rparr>, path)))"
    unfolding castRayTrace_def Let_def stepX_def stepY_def dX_def dY_def sX_def sY_def
      ss_def es_def by simp
  from ddaLoop_empty[OF e, of dX dY stepX stepY sX sY "\<lfloor>posX\<rfloor>" "\<lfloor>posY\<rfloor>" ss es "[]"]
  show ?thesis
  proof
    assume "ddaLoop g dX dY stepX stepY sX sY \<lfloor>posX\<rfloor> \<lfloor>posY\<rfloor> ss es [] = Some (Inl TypeError)"
    then show ?thesis unfolding unf by simp
  next
    assume "\<exists>c. ddaLoop g dX dY stepX stepY sX sY \<lfloor>posX\<rfloor> \<lfloor>posY\<rfloor> ss es []
                 = Some (Inr (Return noHit, [] @ [c]))"
    then obtain c' where "ddaLoop g dX dY stepX stepY sX sY \<lfloor>posX\<rfloor> \<lfloor>posY\<rfloor> ss es []
                 = Some (Inr (Return noHit, [c']))" by auto
    then show ?thesis unfolding unf by auto
  qed
qed

lemma castRayTrace_empty:
  assumes e: "grid g = []" and c: "castRayTrace g posX posY rayAngle = Some (Inr (r, path))"
  shows "r = noHit \<and> (\<exists>c. path = [c])"
  using castRayTrace_empty_total[OF e, of posX posY rayAngle] c by auto

lemma inMap_empty: "\<not> inMap [] c"
  by (simp add: inMap_def gridWidth_def)

lemma castRayTrace_result:
  assumes c: "castRayTrace g posX posY rayAngle = Some (Inr (r, path))"
  shows "path \<noteq> []"
    and "list_all (\<lambda>c. inMap (grid g) c \<and> gridAt (grid g) (fst c) (snd c) \<noteq> Some 1) (butlast path)"
    and "\<not> inMap (grid g) (last path) \<Longrightarrow> r = noHit"
    and "inMap (grid g) (last path) \<Longrightarrow> castSpec g posX posY rayAngle r path"
    and "successively (nextTo (stepOf (cos rayAngle)) (stepOf (sin rayAngle)))
           ((\<lfloor>posX\<rfloor>, \<lfloor>posY\<rfloor>) # path) \<or> grid g = []"
proof -
  have "path \<noteq> [] \<and>
        list_all (\<lambda>c. inMap (grid g) c \<and> gridAt (grid g) (fst c) (snd c) \<noteq> Some 1) (butlast path) \<and>
        (\<not> inMap (grid g) (last path) \<longrightarrow> r = noHit) \<and>
        (inMap (grid g) (last path) \<longrightarrow> castSpec g posX posY rayAngle r path) \<and>
        (successively (nextTo (stepOf (cos rayAngle)) (stepOf (sin rayAngle)))
           ((\<lfloor>posX\<rfloor>, \<lfloor>posY\<rfloor>) # path) \<or> grid g = [])"
  proof (cases "grid g = []")
    case True
    from castRayTrace_empty[OF True c] show ?thesis
      by (auto simp: True inMap_empty)
  next
    case False
    from castRayTrace_total[OF False, of posX posY rayAngle] c
    have s: "castSpec g posX posY rayAngle r path" by auto
    then show ?thesis
      unfolding castSpec_def by (auto split: if_splits)
  qed
  then show "path \<noteq> []"
    and "list_all (\<lambda>c. inMap (grid g) c \<and> gridAt (grid g) (fst c) (snd c) \<noteq> Some 1) (butlast path)"
    and "\<not> inMap (grid g) (last path) \<Longrightarrow> r = noHit"
    and "inMap (grid g) (last path) \<Longrightarrow> castSpec g posX posY rayAngle r path"
    and "successively (nextTo (stepOf (cos rayAngle)) (stepOf (sin rayAngle)))
           ((\<lfloor>posX\<rfloor>, \<lfloor>posY\<rfloor>) # path) \<or> grid g = []"
    by blast+
qed

section \<open>Claims about the generator\<close>

text \<open>
  C1. For every width and height of at least 1, and whatever \<^verbatim>\<open>Math.random\<close> returns
  within its contract, \<^verbatim>\<open>generateMaze\<close> returns a lattice of that size, the number of
  opened boundaries of that lattice is exactly \<open>width * height - 1\<close> (counted at the east
  and south flags, or at the west and north flags), and between any two cells there is
  exactly one simple path through opened boundaries.
\<close>

theorem generateMaze_perfect:
  assumes "1 \<le> width" and "1 \<le> height" and "randomOK rnd"
  shows "\<exists>m. generateMaze rnd width height = Some (Inr m) \<and>
             rect width height m \<and>
             int (openedBoundaries m) = width * height - 1 \<and>
             countCells (\<lambda>c. \<not> west c) m + countCells (\<lambda>c. \<not> north c) m = openedBoundaries m \<and>
             (\<forall>a b. inGrid width height a \<and> inGrid width height b \<longrightarrow>
                    (\<exists>!p. simplePath (passage m) a b p))"
proof -
  from generateMaze_Inv[OF assms] obtain m where
    m: "generateMaze rnd width height = Some (Inr m)" and I: "Inv width height m"
    and V: "visitedSet m = {a. inGrid width height a}" by blast
  from I have r: "rect width height m" and G: "grown (visitedSet m) (passage m)"
    and C: "openedBoundaries m + 1 = countCells visited m"
    and C': "countCells (\<lambda>c. \<not> west c) m + countCells (\<lambda>c. \<not> north c) m + 1
             = countCells visited m"
    by (simp_all add: Inv_def openedBoundaries_def)
  from C C' have both: "countCells (\<lambda>c. \<not> west c) m + countCells (\<lambda>c. \<not> north c) m
                        = openedBoundaries m" by simp
  have "\<exists>c. cellOf m a = Some c \<and> visited c" if "inGrid width height a" for a
    using that V by (auto simp: visitedSet_def)
  with r have "countCells visited m = nat width * nat height" by (rule countCells_all)
  with C have "openedBoundaries m + 1 = nat width * nat height" by simp
  then have "int (openedBoundaries m + 1) = int (nat width * nat height)" by (rule arg_cong)
  with assms(1,2) have cnt: "int (openedBoundaries m) = width * height - 1" by simp
  have "\<exists>!p. simplePath (passage m) a b p"
    if "inGrid width height a" "inGrid width height b" for a b
  proof -
    have "a \<in> visitedSet m" "b \<in> visitedSet m" using that by (simp_all add: V)
    then show ?thesis by (rule grown_unique_path[OF G])
  qed
  with m r cnt both show ?thesis by blast
qed

theorem generateMaze_perfect_witness:
  "\<exists>m. generateMaze (\<lambda>_. 0) 2 2 = Some (Inr m) \<and>
       int (openedBoundaries m) = 3 \<and>
       (\<exists>!p. simplePath (passage m) (0, 0) (1, 1) p)"
proof -
  have "randomOK (\<lambda>_. 0)" by (simp add: randomOK_def)
  from generateMaze_perfect[of 2 2, OF _ _ this]
  obtain m where m: "generateMaze (\<lambda>_. 0) 2 2 = Some (Inr m)"
    "int (openedBoundaries m) = 2 * 2 - 1"
    "\<forall>a b. inGrid 2 2 a \<and> inGrid 2 2 b \<longrightarrow> (\<exists>!p. simplePath (passage m) a b p)"
    by auto
  have "inGrid 2 2 (0, 0) \<and> inGrid 2 2 (1, 1)" by (simp add: inGrid_def)
  with m(3) have "\<exists>!p. simplePath (passage m) (0, 0) (1, 1) p" by blast
  with m(1,2) show ?thesis by auto
qed

text \<open>
  C4. In every lattice \<^verbatim>\<open>generateMaze\<close> returns, the two flags of a shared boundary
  agree: the east flag of a cell equals the west flag of the cell to its east, and the south
  flag of a cell equals the north flag of the cell below it (so one is absent exactly when
  the other is).
\<close>

theorem generateMaze_walls_consistent:
  assumes "1 \<le> width" and "1 \<le> height" and "randomOK rnd"
  shows "\<exists>m. generateMaze rnd width height = Some (Inr m) \<and>
             (\<forall>x y c c'. cellAt m x y = Some c \<longrightarrow>
                (cellAt m (x + 1) y = Some c' \<longrightarrow> east c = west c') \<and>
                (cellAt m x (y + 1) = Some c' \<longrightarrow> south c = north c'))"
proof -
  from generateMaze_Inv[OF assms] obtain m where
    m: "generateMaze rnd width height = Some (Inr m)" and I: "Inv width height m" by blast
  from I have K: "\<And>a d c c'. cellOf m a = Some c \<Longrightarrow> cellOf m (neighbour d a) = Some c' \<Longrightarrow>
                    wall d c = wall (opposite d) c'"
    unfolding Inv_def wallsConsistent_def by blast
  have "east c = west c'" if "cellAt m x y = Some c" "cellAt m (x + 1) y = Some c'" for x y c c'
    using K[of "(x, y)" c East c'] that by (simp add: cellOf_def)
  moreover have "south c = north c'" if "cellAt m x y = Some c" "cellAt m x (y + 1) = Some c'" for x y c c'
    using K[of "(x, y)" c South c'] that by (simp add: cellOf_def)
  ultimately show ?thesis using m by blast
qed

theorem generateMaze_walls_consistent_witness:
  "\<exists>m. generateMaze (\<lambda>_. 1 / 2) 3 2 = Some (Inr m) \<and>
       (\<exists>c c'. cellAt m 0 0 = Some c \<and> cellAt m 1 0 = Some c' \<and> east c = west c')"
proof -
  have "randomOK (\<lambda>_. 1 / 2)" by (simp add: randomOK_def)
  from generateMaze_walls_consistent[of 3 2, OF _ _ this]
  obtain m where m: "generateMaze (\<lambda>_. 1 / 2) 3 2 = Some (Inr m)"
    and k: "\<And>x y c c'. cellAt m x y = Some c \<Longrightarrow> cellAt m (x + 1) y = Some c' \<Longrightarrow> east c = west c'"
    by auto
  from generateMaze_Inv[of 3 2, OF _ _ \<open>randomOK (\<lambda>_. 1 / 2)\<close>] m
  have r: "rect 3 2 m" by (auto simp: Inv_def)
  have "cellAt m 0 0 \<noteq> None" "cellAt m 1 0 \<noteq> None"
    using cellAt_rect[OF r] by (simp_all add: inGrid_def)
  then obtain c c' where c: "cellAt m 0 0 = Some c" "cellAt m 1 0 = Some c'" by auto
  with k[of 0 0 c c'] have "east c = west c'" by simp
  with m c show ?thesis by blast
qed

text \<open>
  C7. A width or a height of zero or less makes \<^verbatim>\<open>generateMaze\<close> throw: the first
  statement of \<^verbatim>\<open>carve(0, 0)\<close> writes a property of the missing cell
  \<^verbatim>\<open>maze[0][0]\<close>. No lattice is returned.
\<close>

theorem generateMaze_rejects:
  assumes "width \<le> 0 \<or> height \<le> 0"
  shows "generateMaze rnd width height = Some (Inl TypeError)"
proof -
  have "\<not> inGrid width height (0, 0)" using assms by (auto simp: inGrid_def)
  then have "cellOf (maze \<lparr>maze = initMaze width height, draws = 0\<rparr>) (0, 0) = None"
    by (simp add: cellOf_initMaze)
  then show ?thesis
    unfolding generateMaze_def by (simp add: carve_Carve_missing)
qed

theorem generateMaze_rejects_witness:
  "generateMaze (\<lambda>_. 0) 0 5 = Some (Inl TypeError) \<and>
   generateMaze (\<lambda>_. 0) 5 (- 1) = Some (Inl TypeError)"
  using generateMaze_rejects[of 0 5 "\<lambda>_. 0"] generateMaze_rejects[of 5 "- 1" "\<lambda>_. 0"]
  by simp

section \<open>Claims about the tile grid\<close>

text \<open>
  C5, as the code has it. For every lattice of \<open>H\<close> rows of \<open>W\<close> cells (\<open>W, H \<ge> 1\<close>),
  \<^verbatim>\<open>mazeToGrid\<close> returns a grid of \<open>2H + 1\<close> rows of \<open>2W + 1\<close> tiles each. If every wall
  on the rim of the lattice is present, every tile of row 0, of the last row, of column 0
  and of the last column of the grid is a wall (value 1); and the lattices that
  \<^verbatim>\<open>generateMaze\<close> returns have every wall on their rim. A lattice with a rim wall
  cleared gets an open tile on the rim of its grid.
\<close>

theorem mazeToGrid_border:
  assumes "1 \<le> width" and "1 \<le> height" and "rect width height m"
  shows "(\<exists>g. mazeToGrid m = Inr g \<and>
            int (length g) = 2 * height + 1 \<and>
            (\<forall>row \<in> set g. int (length row) = 2 * width + 1) \<and>
            (outerWalls m \<longrightarrow>
               (\<forall>gx gy. 0 \<le> gx \<and> gx \<le> 2 * width \<and> 0 \<le> gy \<and> gy \<le> 2 * height \<and>
                        (gx = 0 \<or> gx = 2 * width \<or> gy = 0 \<or> gy = 2 * height) \<longrightarrow>
                        gridAt g gx gy = Some 1))) \<and>
         (randomOK rnd \<longrightarrow>
            (\<exists>m'. generateMaze rnd width height = Some (Inr m') \<and>
                  rect width height m' \<and> outerWalls m'))"
proof -
  from mazeToGrid_ok[OF assms, of "outerWalls m"] obtain g where
    g: "mazeToGrid m = Inr g" and G: "gridInv (outerWalls m) width height (nat height) 0 g"
    by blast
  from G have rg: "rect (2 * width + 1) (2 * height + 1) g"
    and bd: "\<And>i j. outerWalls m \<Longrightarrow> i < nat (2 * height + 1) \<Longrightarrow> j < nat (2 * width + 1) \<Longrightarrow>
             (i = 0 \<or> i = nat (2 * height) \<or> j = 0 \<or> j = nat (2 * width)) \<Longrightarrow> g ! i ! j = 1"
    by (auto simp: gridInv_def)
  from rg assms(1,2) have dims: "int (length g) = 2 * height + 1"
    "\<forall>row \<in> set g. int (length row) = 2 * width + 1"
    by (auto simp: rect_def list_all_iff)
  have rim: "gridAt g gx gy = Some 1"
    if B: "outerWalls m"
      and p: "0 \<le> gx \<and> gx \<le> 2 * width \<and> 0 \<le> gy \<and> gy \<le> 2 * height \<and>
              (gx = 0 \<or> gx = 2 * width \<or> gy = 0 \<or> gy = 2 * height)" for gx gy
  proof -
    have "g ! nat gy ! nat gx = 1" using p by (intro bd[OF B]) auto
    then show ?thesis using gridAt_rect[OF rg, of gx gy] p by simp
  qed
  have gen: "\<exists>m'. generateMaze rnd width height = Some (Inr m') \<and>
                 rect width height m' \<and> outerWalls m'" if "randomOK rnd"
    using generateMaze_Inv[OF assms(1,2) that] by (auto simp: Inv_def)
  from g dims rim gen show ?thesis by blast
qed

theorem mazeToGrid_border_witness:
  "\<exists>g. mazeToGrid [[\<lparr>visited = True, north = True, south = True, west = True, east = True\<rparr>]]
          = Inr g \<and>
       int (length g) = 3 \<and> gridAt g 0 0 = Some 1 \<and> gridAt g 1 0 = Some 1 \<and>
       gridAt g 2 1 = Some 1 \<and> gridAt g 1 2 = Some 1"
proof -
  let ?m = "[[\<lparr>visited = True, north = True, south = True, west = True, east = True\<rparr>]]"
  have r: "rect 1 1 ?m" by (simp add: rect_def)
  have "wall d \<lparr>visited = True, north = True, south = True, west = True, east = True\<rparr>" for d
    by (cases d) simp_all
  then have B: "outerWalls ?m"
    by (auto simp: outerWalls_def cellOf_def cellAt_def elemAt_def split: option.splits if_splits)
  from mazeToGrid_border[where width = 1 and height = 1 and m = ?m and rnd = "\<lambda>_. 0", OF _ _ r]
  obtain g where g: "mazeToGrid ?m = Inr g" "int (length g) = 2 * 1 + 1"
    and b: "outerWalls ?m \<longrightarrow>
               (\<forall>gx gy. 0 \<le> gx \<and> gx \<le> 2 * 1 \<and> 0 \<le> gy \<and> gy \<le> 2 * 1 \<and>
                        (gx = 0 \<or> gx = 2 * 1 \<or> gy = 0 \<or> gy = 2 * 1) \<longrightarrow>
                        gridAt g gx gy = Some 1)"
    by auto
  from b B have rim: "\<And>gx gy. 0 \<le> gx \<and> gx \<le> 2 * 1 \<and> 0 \<le> gy \<and> gy \<le> 2 * 1 \<and>
                        (gx = 0 \<or> gx = 2 * 1 \<or> gy = 0 \<or> gy = 2 * 1) \<Longrightarrow>
                        gridAt g gx gy = Some 1" by blast
  have "gridAt g 0 0 = Some 1" "gridAt g 1 0 = Some 1" "gridAt g 2 1 = Some 1"
    "gridAt g 1 2 = Some 1"
    by (rule rim; simp)+
  with g show ?thesis by auto
qed

theorem mazeToGrid_open_rim_counterexample:
  "rect 1 1 [[\<lparr>visited = True, north = False, south = True, west = False, east = True\<rparr>]] \<and>
   mazeToGrid [[\<lparr>visited = True, north = False, south = True, west = False, east = True\<rparr>]]
     = Inr [[1, 0, 1], [0, 0, 1], [1, 1, 1]] \<and>
   gridAt [[1, 0, 1], [0, 0, 1], [1, 1, 1]] 1 0 = Some 0 \<and>
   gridAt [[1, 0, 1], [0, 0, 1], [1, 1, 1]] 0 1 = Some 0"
  by (simp add: rect_def mazeToGrid_def gridCell_def cellAt_def elemAt_def put_def Let_def
      gridAt_def numeral_3_eq_3 numeral_2_eq_2)

text \<open>
  C10. For a maze generated with a width and a height of at least 1, both landmark tiles
  of its grid are open: the start tile \<open>(1, 1)\<close> and the exit tile
  \<open>(2 * width - 1, 2 * height - 1)\<close> have the value 0. In particular this holds for the
  grid and the exit coordinates that \<^verbatim>\<open>initGame\<close> sets in every stage from 1 on.
\<close>

theorem landmarks_open:
  assumes "1 \<le> width" and "1 \<le> height" and "randomOK rnd"
  shows "(\<exists>m g. generateMaze rnd width height = Some (Inr m) \<and> mazeToGrid m = Inr g \<and>
            gridAt g startGridX startGridY = Some 0 \<and>
            gridAt g (width * 2 - 1) (height * 2 - 1) = Some 0) \<and>
         (1 \<le> stage \<longrightarrow>
            (\<exists>gm. initGame rnd stage = Some (Inr gm) \<and>
                  gridAt (grid gm) startGridX startGridY = Some 0 \<and>
                  gridAt (grid gm) (exitX gm) (exitY gm) = Some 0))"
proof -
  have open2: "\<exists>m g. generateMaze rnd w h = Some (Inr m) \<and> mazeToGrid m = Inr g \<and>
            gridAt g startGridX startGridY = Some 0 \<and>
            gridAt g (w * 2 - 1) (h * 2 - 1) = Some 0" if w: "1 \<le> w" and h: "1 \<le> h" for w h
  proof -
    from generated_grid[OF w h assms(3)] obtain m g where
      m: "generateMaze rnd w h = Some (Inr m)" "mazeToGrid m = Inr g"
      and z: "\<And>x y. 0 \<le> x \<and> x < w \<and> 0 \<le> y \<and> y < h \<Longrightarrow>
                 gridAt g (2 * x + 1) (2 * y + 1) = Some 0"
      by blast
    have "gridAt g (2 * 0 + 1) (2 * 0 + 1) = Some 0" using w h by (intro z) simp
    moreover have "gridAt g (2 * (w - 1) + 1) (2 * (h - 1) + 1) = Some 0"
      using w h by (intro z) simp
    moreover have "2 * (w - 1) + 1 = w * 2 - 1" "2 * (h - 1) + 1 = h * 2 - 1" by simp_all
    ultimately show ?thesis using m by (auto simp: startGridX_def startGridY_def mult.commute)
  qed
  have "\<exists>gm. initGame rnd stage = Some (Inr gm) \<and>
             gridAt (grid gm) startGridX startGridY = Some 0 \<and>
             gridAt (grid gm) (exitX gm) (exitY gm) = Some 0" if "1 \<le> stage"
  proof -
    let ?n = "8 + (stage - 1) * 2"
    from that have "1 \<le> ?n" by simp
    from open2[OF this this] obtain m g where
      "generateMaze rnd ?n ?n = Some (Inr m)" "mazeToGrid m = Inr g"
      "gridAt g startGridX startGridY = Some 0" "gridAt g (?n * 2 - 1) (?n * 2 - 1) = Some 0"
      by blast
    then show ?thesis by (simp add: initGame_def Let_def)
  qed
  with open2[OF assms(1,2)] show ?thesis by blast
qed

theorem landmarks_open_witness:
  "(\<exists>m g. generateMaze (\<lambda>_. 1 / 2) 3 2 = Some (Inr m) \<and> mazeToGrid m = Inr g \<and>
          gridAt g 1 1 = Some 0 \<and> gridAt g 5 3 = Some 0) \<and>
   (\<exists>gm. initGame (\<lambda>_. 1 / 2) 1 = Some (Inr gm) \<and>
         gridAt (grid gm) 1 1 = Some 0 \<and> gridAt (grid gm) (exitX gm) (exitY gm) = Some 0)"
proof -
  have "randomOK (\<lambda>_. 1 / 2)" by (simp add: randomOK_def)
  from landmarks_open[of 3 2 "\<lambda>_. 1 / 2" 1, OF _ _ this]
  show ?thesis by (simp add: startGridX_def startGridY_def)
qed



lemma far_origin_first_step:
  assumes "nextTo (stepOf u) (stepOf v) (a, b) c"
    and "a < - 1 \<or> gridWidth g < a \<or> b < - 1 \<or> gridHeight g < b"
  shows "\<not> inMap g c"
  using assms by (auto simp: inMap_def nextTo_def stepOf_def split: if_splits)





section \<open>Claims about the ray caster\<close>




text \<open>
  C3, as the code has it. Whenever the walk steps into a cell outside the grid, \<^verbatim>\<open>castRay\<close>
  returns the distance \<^verbatim>\<open>Infinity\<close> with side 0 and both landmark flags false, whatever
  the flags were before (a landmark entered earlier along the ray included). The origin
  itself is never tested: a cast from outside the grid returns this result when its first
  step lands outside the grid as well, which is always so when the origin tile is more
  than one tile away from the grid. The cast always returns; only on an empty grid, where
  line 354 reads \<^verbatim>\<open>grid[0].length\<close>, it can throw instead.
\<close>

theorem castRay_leaves_grid:
  "(\<exists>r path.
      castRayTrace g posX posY rayAngle = Some (Inr (r, path)) \<and>
      castRay g posX posY rayAngle = Some (Inr r) \<and>
      path \<noteq> [] \<and>
      (\<not> inMap (grid g) (last path) \<longrightarrow>
         r = \<lparr>distR = PosInf, side = 0, startSeen = False, exitSeen = False\<rparr>) \<and>
      (\<not> inMap (grid g) (hd path) \<longrightarrow>
         r = \<lparr>distR = PosInf, side = 0, startSeen = False, exitSeen = False\<rparr>) \<and>
      (\<lfloor>posX\<rfloor> < - 1 \<or> gridWidth (grid g) < \<lfloor>posX\<rfloor> \<or>
       \<lfloor>posY\<rfloor> < - 1 \<or> gridHeight (grid g) < \<lfloor>posY\<rfloor> \<longrightarrow>
         r = \<lparr>distR = PosInf, side = 0, startSeen = False, exitSeen = False\<rparr>)) \<or>
   (grid g = [] \<and> castRayTrace g posX posY rayAngle = Some (Inl TypeError) \<and>
    castRay g posX posY rayAngle = Some (Inl TypeError))"
proof -
  have main: "path \<noteq> [] \<and>
      (\<not> inMap (grid g) (last path) \<longrightarrow> r = noHit) \<and>
      (\<not> inMap (grid g) (hd path) \<longrightarrow> r = noHit) \<and>
      (\<lfloor>posX\<rfloor> < - 1 \<or> gridWidth (grid g) < \<lfloor>posX\<rfloor> \<or>
       \<lfloor>posY\<rfloor> < - 1 \<or> gridHeight (grid g) < \<lfloor>posY\<rfloor> \<longrightarrow> r = noHit)"
    if c: "castRayTrace g posX posY rayAngle = Some (Inr (r, path))" for r path
  proof -
    note res = castRayTrace_result[OF c]
    have first: "r = noHit" if h: "\<not> inMap (grid g) (hd path)"
    proof -
      have "butlast path = []"
      proof (rule ccontr)
        assume "butlast path \<noteq> []"
        then have "hd path \<in> set (butlast path)"
          using res(1) by (cases path) (auto split: if_splits)
        with res(2) h show False by (auto simp: list_all_iff)
      qed
      with res(1) have "last path = hd path" by (cases path) (auto split: if_splits)
      with h res(3) show ?thesis by simp
    qed
    have far: "r = noHit"
      if f: "\<lfloor>posX\<rfloor> < - 1 \<or> gridWidth (grid g) < \<lfloor>posX\<rfloor> \<or>
             \<lfloor>posY\<rfloor> < - 1 \<or> gridHeight (grid g) < \<lfloor>posY\<rfloor>"
    proof (rule first)
      show "\<not> inMap (grid g) (hd path)"
      proof (cases "grid g = []")
        case True
        then show ?thesis by (simp add: inMap_empty)
      next
        case False
        with res(5) have "successively (nextTo (stepOf (cos rayAngle)) (stepOf (sin rayAngle)))
           ((\<lfloor>posX\<rfloor>, \<lfloor>posY\<rfloor>) # path)" by simp
        with res(1) have "nextTo (stepOf (cos rayAngle)) (stepOf (sin rayAngle))
           (\<lfloor>posX\<rfloor>, \<lfloor>posY\<rfloor>) (hd path)" by (cases path) simp_all
        then show ?thesis using f by (rule far_origin_first_step)
      qed
    qed
    show ?thesis using res(1) res(3) first far by blast
  qed
  have cr: "castRay g posX posY rayAngle = Some (Inr r)"
    if "castRayTrace g posX posY rayAngle = Some (Inr (r, path))" for r path
    using that by (simp add: castRay_def)
  have ce: "castRay g posX posY rayAngle = Some (Inl TypeError)"
    if "castRayTrace g posX posY rayAngle = Some (Inl TypeError)"
    using that by (simp add: castRay_def)
  show ?thesis
  proof (cases "grid g = []")
    case False
    from castRayTrace_total[OF False, of posX posY rayAngle] obtain r path where
      c: "castRayTrace g posX posY rayAngle = Some (Inr (r, path))" by blast
    from main[OF c] cr[OF c] c show ?thesis unfolding noHit_def by blast
  next
    case True
    from castRayTrace_empty_total[OF True, of posX posY rayAngle]
    show ?thesis
    proof
      assume t: "castRayTrace g posX posY rayAngle = Some (Inl TypeError)"
      with True ce[OF t] show ?thesis by blast
    next
      assume "\<exists>c. castRayTrace g posX posY rayAngle = Some (Inr (noHit, [c]))"
      then obtain c' where c: "castRayTrace g posX posY rayAngle = Some (Inr (noHit, [c']))"
        by blast
      from main[OF c] cr[OF c] c show ?thesis unfolding noHit_def by blast
    qed
  qed
qed

theorem castRay_leaves_grid_witness:
  "castRayTrace \<lparr>grid = [[0, 0, 0], [0, 0, 0], [0, 0, 0]], exitX = 2, exitY = 1\<rparr> (3 / 2) (3 / 2) 0
     = Some (Inr (\<lparr>distR = PosInf, side = 0, startSeen = False, exitSeen = False\<rparr>,
                  [(2, 1), (3, 1)])) \<and>
   \<lfloor>3 / 2 :: real\<rfloor> = startGridX \<and> \<lfloor>3 / 2 :: real\<rfloor> = startGridY \<and>
   \<not> inMap [[0, 0, 0], [0, 0, 0], [0, 0, 0]] (3, 1)"
proof -
  let ?g = "\<lparr>grid = [[0, 0, 0], [0, 0, 0], [0, 0, 0]], exitX = 2, exitY = 1\<rparr>"
  have ev: "castRayTrace ?g (3 / 2) (3 / 2) 0
     = Some (Inr (\<lparr>distR = PosInf, side = 0, startSeen = False, exitSeen = False\<rparr>,
                  [(2, 1), (3, 1)]))"
    using overflowAt_pos
    by (simp add: castRayTrace_def ddaLoop.simps outsideMap_def gridAt_def elemAt_def
        startGridX_def startGridY_def Let_def fl_def overflowAt_def)
  from castRay_leaves_grid[of ?g "3 / 2" "3 / 2" 0] ev show ?thesis
    by (simp add: inMap_def gridWidth_def gridHeight_def startGridX_def startGridY_def)
qed

theorem castRay_outside_origin_counterexample:
  "mazeToGrid [[\<lparr>visited = True, north = True, south = True, west = True, east = True\<rparr>]]
     = Inr [[1, 1, 1], [1, 0, 1], [1, 1, 1]] \<and>
   \<not> inMap [[1, 1, 1], [1, 0, 1], [1, 1, 1]] (\<lfloor>- 1 / 2 :: real\<rfloor>, \<lfloor>3 / 2 :: real\<rfloor>) \<and>
   castRay \<lparr>grid = [[1, 1, 1], [1, 0, 1], [1, 1, 1]], exitX = 1, exitY = 1\<rparr> (- 1 / 2) (3 / 2) 0
     = Some (Inr \<lparr>distR = Finite (1 / 2), side = 0, startSeen = False, exitSeen = False\<rparr>)"
proof -
  have "mazeToGrid [[\<lparr>visited = True, north = True, south = True, west = True, east = True\<rparr>]]
     = Inr [[1, 1, 1], [1, 0, 1], [1, 1, 1]]"
    by (simp add: mazeToGrid_def gridCell_def cellAt_def elemAt_def put_def Let_def
        numeral_3_eq_3 numeral_2_eq_2)
  moreover have "castRay \<lparr>grid = [[1, 1, 1], [1, 0, 1], [1, 1, 1]], exitX = 1, exitY = 1\<rparr>
       (- 1 / 2) (3 / 2) 0
     = Some (Inr \<lparr>distR = Finite (1 / 2), side = 0, startSeen = False, exitSeen = False\<rparr>)"
    by (simp add: castRay_def castRayTrace_def ddaLoop.simps outsideMap_def gridAt_def elemAt_def
        startGridX_def startGridY_def Let_def fl_def overflowAt_def)
  ultimately show ?thesis
    by (simp add: inMap_def gridWidth_def gridHeight_def)
qed

text \<open>
  C6. For any grid and any ray that ends on a wall: \<open>startSeen\<close> is true exactly when the
  origin lies in the start cell or the walk has stepped into the start cell and that cell
  is open (value 0), and \<open>exitSeen\<close> likewise for the exit cell. So a path through the
  open start cell, or an origin in it, gives \<open>startSeen = true\<close>, and a path that never
  enters the start or the exit cell, from an origin in neither, gives both flags false.
  Every cell stepped into before the last is in the grid and is no wall, and the last one
  is the wall hit. A ray ends on a wall when its last cell lies in the grid; that is so
  whenever the distance returned is not \<^verbatim>\<open>Infinity\<close>.
\<close>

theorem castRay_landmarks:
  assumes "castRayTrace g posX posY rayAngle = Some (Inr (r, path))"
    and "distR r \<noteq> PosInf \<or> inMap (grid g) (last path)"
  shows "startSeen r =
           ((\<lfloor>posX\<rfloor> = startGridX \<and> \<lfloor>posY\<rfloor> = startGridY) \<or>
            ((startGridX, startGridY) \<in> set path \<and>
             gridAt (grid g) startGridX startGridY = Some 0)) \<and>
         exitSeen r =
           ((\<lfloor>posX\<rfloor> = exitX g \<and> \<lfloor>posY\<rfloor> = exitY g) \<or>
            ((exitX g, exitY g) \<in> set path \<and> gridAt (grid g) (exitX g) (exitY g) = Some 0)) \<and>
         path \<noteq> [] \<and>
         gridAt (grid g) (fst (last path)) (snd (last path)) = Some 1 \<and>
         list_all (\<lambda>c. inMap (grid g) c \<and> gridAt (grid g) (fst c) (snd c) \<noteq> Some 1)
           (butlast path)"
proof -
  note res = castRayTrace_result[OF assms(1)]
  have "inMap (grid g) (last path)"
  proof (rule ccontr)
    assume n: "\<not> inMap (grid g) (last path)"
    from res(3)[OF this] assms(2) n show False by (simp add: noHit_def)
  qed
  from res(4)[OF this] this res(1,2) show ?thesis
    unfolding castSpec_def openAt_def by simp
qed

theorem castRay_landmarks_witness:
  "castRayTrace \<lparr>grid = [[1, 1, 1, 1, 1], [1, 0, 0, 0, 1], [1, 1, 1, 1, 1]], exitX = 3, exitY = 1\<rparr>
       (7 / 2) (3 / 2) pi
     = Some (Inr (\<lparr>distR = Finite (5 / 2), side = 0, startSeen = True, exitSeen = True\<rparr>,
                  [(2, 1), (1, 1), (0, 1)])) \<and>
   (startGridX, startGridY) \<in> set [(2, 1), (1, 1), (0, 1)] \<and>
   gridAt [[1, 1, 1, 1, 1], [1, 0, 0, 0, 1], [1, 1, 1, 1, 1]] startGridX startGridY = Some 0"
proof -
  let ?g = "\<lparr>grid = [[1, 1, 1, 1, 1], [1, 0, 0, 0, 1], [1, 1, 1, 1, 1]], exitX = 3, exitY = 1\<rparr>"
  have ev: "castRayTrace ?g (7 / 2) (3 / 2) pi
     = Some (Inr (\<lparr>distR = Finite (5 / 2), side = 0, startSeen = True, exitSeen = True\<rparr>,
                  [(2, 1), (1, 1), (0, 1)]))"
    by (simp add: castRayTrace_def ddaLoop.simps outsideMap_def gridAt_def elemAt_def
        startGridX_def startGridY_def Let_def fl_def overflowAt_def)
  from castRay_landmarks[OF ev] ev show ?thesis
    by (simp add: startGridX_def startGridY_def gridAt_def elemAt_def)
qed

lemma timesReal_one: "timesReal d 1 = d"
  by (cases d) simp_all

section \<open>Claims about the projection and the movement\<close>

text \<open>
  C8. For every screen column \<open>x\<close> below the canvas width \<open>w\<close>, the column's ray angle is
  \<open>angle - fov / 2 + (x / w) * fov\<close>, the ray cast is the one from the player's position at
  that angle, and the corrected distance is the ray's distance times
  \<open>cos (rayAngle - angle)\<close>; when the ray angle equals the player's angle, the corrected
  distance is the ray's distance itself (\<^verbatim>\<open>Infinity\<close> included). Numbers are reals here.
\<close>

theorem render_fisheye:
  assumes "x < w" and "renderColumns g pl w ! x = Some (Inr col)"
  shows "rayAngleC col = angle pl - fov / 2 + (real x / real w) * fov \<and>
         castRay g (playerX pl) (playerY pl) (rayAngleC col) = Some (Inr (result col)) \<and>
         correctedDist col = timesReal (distR (result col)) (cos (rayAngleC col - angle pl)) \<and>
         (rayAngleC col = angle pl \<longrightarrow> correctedDist col = distR (result col))"
proof -
  from assms have c: "renderColumn g pl w x = Some (Inr col)"
    by (simp add: renderColumns_def)
  then have 1: "rayAngleC col = angle pl - fov / 2 + (real x / real w) * fov"
    and 2: "castRay g (playerX pl) (playerY pl) (rayAngleC col) = Some (Inr (result col))"
    and 3: "correctedDist col = timesReal (distR (result col)) (cos (rayAngleC col - angle pl))"
    by (auto simp: renderColumn_def Let_def split: option.splits sum.splits)
  have "correctedDist col = distR (result col)" if "rayAngleC col = angle pl"
    unfolding 3 using that by (simp add: timesReal_one)
  with 1 2 3 show ?thesis by blast
qed

theorem render_fisheye_witness:
  "\<exists>col. renderColumns \<lparr>grid = [[1, 1, 1], [1, 0, 1], [1, 1, 1]], exitX = 1, exitY = 1\<rparr>
            \<lparr>playerX = 3 / 2, playerY = 3 / 2, angle = 0, moveSpeed = 3, rotSpeed = pi\<rparr> 2 ! 1
          = Some (Inr col) \<and>
         rayAngleC col = 0 \<and> distR (result col) = Finite (1 / 2) \<and>
         correctedDist col = Finite (1 / 2)"
proof -
  let ?g = "\<lparr>grid = [[1, 1, 1], [1, 0, 1], [1, 1, 1]], exitX = 1, exitY = 1\<rparr>"
  let ?pl = "\<lparr>playerX = 3 / 2, playerY = 3 / 2, angle = 0, moveSpeed = 3, rotSpeed = pi\<rparr>"
  let ?col = "\<lparr>rayAngleC = 0,
               result = \<lparr>distR = Finite (1 / 2), side = 0, startSeen = True, exitSeen = True\<rparr>,
               correctedDist = Finite (1 / 2)\<rparr>"
  have ev: "renderColumns ?g ?pl 2 ! 1 = Some (Inr ?col)"
    by (simp add: renderColumns_def renderColumn_def fov_def castRay_def castRayTrace_def
        ddaLoop.simps outsideMap_def gridAt_def elemAt_def startGridX_def startGridY_def Let_def
        fl_def overflowAt_def upt_rec[of 0 2] upt_rec[of 1 2])
  from render_fisheye[OF _ ev] ev show ?thesis by simp
qed

text \<open>
  C9, at an input where the code does not do what the claim says. The probe of the X move
  is offset by \<open>cos angle * radius\<close>, along the heading, whatever the direction of travel.
  Walking backwards towards a wall, the probe lies on the far side of the new position:
  the move is accepted and the player stands inside the wall tile.
\<close>

theorem update_backward_enters_wall:
  "update \<lparr>grid = [[1, 1, 1], [1, 0, 1], [1, 1, 1]], exitX = 1, exitY = 1\<rparr> FirstPerson
     \<lparr>forward = False, backward = True, strafeLeft = False, strafeRight = False,
      turnLeft = False, turnRight = False\<rparr> (1 / 20)
     \<lparr>playerX = 11 / 10, playerY = 3 / 2, angle = 0, moveSpeed = 3, rotSpeed = pi\<rparr>
   = Inr \<lparr>playerX = 19 / 20, playerY = 3 / 2, angle = 0, moveSpeed = 3, rotSpeed = pi\<rparr> \<and>
   isWall [[1, 1, 1], [1, 0, 1], [1, 1, 1]] (19 / 20) (3 / 2) = Inr True \<and>
   isWall [[1, 1, 1], [1, 0, 1], [1, 1, 1]] (19 / 20 - 2 / 10) (3 / 2) = Inr True \<and>
   isWall [[1, 1, 1], [1, 0, 1], [1, 1, 1]] (19 / 20 + 2 / 10) (3 / 2) = Inr False"
proof -
  have "\<not> pi \<le> 0" using pi_gt_zero by linarith
  then show ?thesis
    by (simp add: update_def isWall_def outsideMap_def gridAt_def elemAt_def Let_def)
qed

end
